theory Spec2Isabelle
  imports Complex_Main
begin

section \<open>Outcomes and the heap\<close>

text \<open>
  The library targets boards without exceptions: no function of it has an error
  channel. An operation of the model therefore either returns, or its behaviour is
  undefined (it touches memory outside a block, a null pointer or freed memory). The
  third outcome, a condition signalled to the caller, is what the guards commented
  \<^verbatim>\<open>// error\<close> and \<^verbatim>\<open>// warning\<close> in the source would produce if
  their bodies were not empty; no definition below constructs it.
\<close>

datatype ub = NullPointer | FreedMemory | WildPointer | OutsideBlock | DoubleFree
  | DanglingReference | MismatchedDelete | MissingReturn

datatype condition = OutOfRange | Truncation

datatype 'a outcome = Returns 'a | Signals condition | Undefined ub

fun obind :: "'a outcome \<Rightarrow> ('a \<Rightarrow> 'b outcome) \<Rightarrow> 'b outcome" where
  "obind (Returns x) f = f x"
| "obind (Signals c) f = Signals c"
| "obind (Undefined u) f = Undefined u"

fun signalled :: "'a outcome \<Rightarrow> bool" where
  "signalled (Signals c) = True"
| "signalled (Returns x) = False"
| "signalled (Undefined u) = False"

text \<open>
  The heap is the list of all objects ever allocated, an address being a position in
  it; a freed object is \<open>None\<close>. A pointer is an address or \<^verbatim>\<open>nullptr\<close>
  (\<open>None\<close>). Allocation never fails, as the source assumes.
\<close>

type_synonym 'c heap = "'c option list"

type_synonym pointer = "nat option"

definition operator_new :: "'c heap \<Rightarrow> 'c \<Rightarrow> nat \<times> 'c heap" where
  "operator_new h c = (length h, h @ [Some c])"

definition deref :: "'c heap \<Rightarrow> pointer \<Rightarrow> 'c outcome" where
  "deref h p =
     (case p of
        None \<Rightarrow> Undefined NullPointer
      | Some a \<Rightarrow>
          (if a < length h
           then (case h ! a of None \<Rightarrow> Undefined FreedMemory | Some c \<Rightarrow> Returns c)
           else Undefined WildPointer))"

text \<open>\<^verbatim>\<open>delete p\<close> and \<^verbatim>\<open>delete[] p\<close>: nothing happens on a null pointer.\<close>

definition operator_delete :: "'c heap \<Rightarrow> pointer \<Rightarrow> 'c heap outcome" where
  "operator_delete h p =
     (case p of
        None \<Rightarrow> Returns h
      | Some a \<Rightarrow>
          (if a < length h
           then (case h ! a of
                   None \<Rightarrow> Undefined DoubleFree
                 | Some c \<Rightarrow> Returns (h[a := None]))
           else Undefined WildPointer))"

text \<open>
  \<^verbatim>\<open>for (size_t i = 0; i < n; i++) body(i)\<close>, where the body does not change
  \<open>n\<close>: the iterations \<open>0, \<dots>, n - 1\<close> in ascending order.
\<close>

primrec for_upto :: "nat \<Rightarrow> (nat \<Rightarrow> 's \<Rightarrow> 's outcome) \<Rightarrow> 's \<Rightarrow> 's outcome" where
  "for_upto 0 body s = Returns s"
| "for_upto (Suc n) body s = obind (for_upto n body s) (body n)"

section \<open>Vector.h\<close>

text \<open>
  What the template leaves open: the range of \<^verbatim>\<open>size_t\<close> on the board (65535 on
  an AVR, \<open>2 ^ 32 - 1\<close> on an ARM), the size of the element type \<^verbatim>\<open>T\<close> in bytes and
  whether \<^verbatim>\<open>T\<close> has a trivial destructor. Arithmetic on \<^verbatim>\<open>size_t\<close> wraps
  around.
\<close>

record platform =
  SIZE_MAX :: nat
  sizeof_T :: nat
  trivially_destructible :: bool

definition size_t :: "platform \<Rightarrow> nat \<Rightarrow> nat" where
  "size_t p n = n mod (SIZE_MAX p + 1)"

text \<open>
  A slot of a storage block is raw memory (\<open>Raw\<close>, as \<^verbatim>\<open>::operator new\<close>
  returns it), holds a value that was assigned to it (\<open>Live\<close>), or has had the
  destructor run on it (\<open>Destroyed\<close>). The source assigns into raw slots and never
  constructs in place; the model follows it: an assignment stores the value whatever the
  slot held, and a destructor call marks the slot whatever it held.
\<close>

datatype 'a slot = Raw | Live 'a | Destroyed

type_synonym 'a block = "'a slot list"

record Vector =
  m_data :: pointer
  m_size :: nat
  m_capacity :: nat

text \<open>\<^verbatim>\<open>p[i]\<close> read, \<^verbatim>\<open>p[i] = s\<close> and \<^verbatim>\<open>p[i].~T()\<close>.\<close>

definition slot_read :: "'a block heap \<Rightarrow> pointer \<Rightarrow> nat \<Rightarrow> 'a slot outcome" where
  "slot_read h p i =
     obind (deref h p) (\<lambda>b. if i < length b then Returns (b ! i) else Undefined OutsideBlock)"

definition slot_write ::
  "'a block heap \<Rightarrow> pointer \<Rightarrow> nat \<Rightarrow> 'a slot \<Rightarrow> 'a block heap outcome" where
  "slot_write h p i s =
     (case p of
        None \<Rightarrow> Undefined NullPointer
      | Some a \<Rightarrow>
          obind (deref h (Some a))
            (\<lambda>b. if i < length b then Returns (h[a := Some (b[i := s])])
                 else Undefined OutsideBlock))"

definition slot_destroy :: "'a block heap \<Rightarrow> pointer \<Rightarrow> nat \<Rightarrow> 'a block heap outcome" where
  "slot_destroy h p i = slot_write h p i Destroyed"

text \<open>
  \<^verbatim>\<open>::operator new(n * sizeof(T))\<close>: the product is a \<^verbatim>\<open>size_t\<close>, and the
  block has room for as many slots as the bytes asked for hold.
\<close>

definition new_block :: "platform \<Rightarrow> 'a block heap \<Rightarrow> nat \<Rightarrow> nat \<times> 'a block heap" where
  "new_block p h n =
     operator_new h (replicate (size_t p (n * sizeof_T p) div sizeof_T p) Raw)"

text \<open>
  \<^verbatim>\<open>delete[] m_data\<close> on a block that came from \<^verbatim>\<open>::operator new\<close>, not
  from \<^verbatim>\<open>new[]\<close>. Nothing happens on a null pointer. For an element type with a
  trivial destructor the block is freed. For any other element type
  \<^verbatim>\<open>delete[]\<close> looks for the element count that \<^verbatim>\<open>new[]\<close> would have stored
  with the block, and there is none: the behaviour is undefined. (The call the block
  needs, \<^verbatim>\<open>::operator delete\<close>, stands commented out on the line before.)
\<close>

definition array_delete :: "platform \<Rightarrow> 'a block heap \<Rightarrow> pointer \<Rightarrow> 'a block heap outcome" where
  "array_delete p h ptr =
     (case ptr of
        None \<Rightarrow> Returns h
      | Some a \<Rightarrow>
          (if trivially_destructible p then operator_delete h (Some a)
           else Undefined MismatchedDelete))"

text \<open>\<^verbatim>\<open>Vector()\<close>: the member initialisers.\<close>

definition Vector_empty :: Vector where
  "Vector_empty = \<lparr>m_data = None, m_size = 0, m_capacity = 0\<rparr>"

text \<open>\<^verbatim>\<open>move\<close> of utils.h is a cast: the value is the same.\<close>

definition move :: "'a \<Rightarrow> 'a" where
  "move x = x"

definition reAllocate ::
  "platform \<Rightarrow> 'a block heap \<Rightarrow> Vector \<Rightarrow> nat \<Rightarrow> ('a block heap \<times> Vector) outcome" where
  "reAllocate p h v newCapacity =
     (case new_block p h newCapacity of
        (newBlock, h1) \<Rightarrow>
          (let v1 = (if newCapacity < m_size v then v\<lparr>m_size := newCapacity\<rparr> else v) in
           obind (for_upto (m_size v1)
                    (\<lambda>i hh. obind (slot_read hh (m_data v1) i)
                               (\<lambda>s. slot_write hh (Some newBlock) i (move s))) h1)
             (\<lambda>h2.
           obind (for_upto (m_size v1) (\<lambda>i hh. slot_destroy hh (m_data v1) i) h2)
             (\<lambda>h3.
           obind (array_delete p h3 (m_data v1))
             (\<lambda>h4.
           Returns (h4, v1\<lparr>m_data := Some newBlock, m_capacity := newCapacity\<rparr>))))))"

text \<open>\<^verbatim>\<open>Vector(size_t initialCapacity)\<close>.\<close>

definition Vector_with_capacity ::
  "platform \<Rightarrow> 'a block heap \<Rightarrow> nat \<Rightarrow> ('a block heap \<times> Vector) outcome" where
  "Vector_with_capacity p h initialCapacity = reAllocate p h Vector_empty initialCapacity"

text \<open>
  The argument of \<^verbatim>\<open>pushBack\<close> is a reference: to an object outside the vector's
  storage, which stays what it is during the call, or to a slot of a block of the heap,
  as in \<^verbatim>\<open>v.pushBack(v[0])\<close>. It is read where the source reads it: in the
  assignment, after the reallocation.
\<close>

datatype 'a reference = Object 'a | Slot nat nat

fun read_reference :: "'a block heap \<Rightarrow> 'a reference \<Rightarrow> 'a slot outcome" where
  "read_reference h (Object x) = Returns (Live x)"
| "read_reference h (Slot a i) = slot_read h (Some a) i"

text \<open>\<^verbatim>\<open>pushBack(const T&)\<close> and \<^verbatim>\<open>pushBack(T&&)\<close>.\<close>

definition pushBack ::
  "platform \<Rightarrow> 'a block heap \<Rightarrow> Vector \<Rightarrow> 'a reference \<Rightarrow> ('a block heap \<times> Vector) outcome" where
  "pushBack p h v val =
     obind (if m_size v \<ge> m_capacity v
            then reAllocate p h v (size_t p (m_capacity v + m_capacity v div 2 + 2))
            else Returns (h, v))
       (\<lambda>(h1, v1).
     obind (read_reference h1 val)
       (\<lambda>s.
     obind (slot_write h1 (m_data v1) (m_size v1) s)
       (\<lambda>h2. Returns (h2, v1\<lparr>m_size := size_t p (m_size v1 + 1)\<rparr>))))"

definition pushBack_rvalue ::
  "platform \<Rightarrow> 'a block heap \<Rightarrow> Vector \<Rightarrow> 'a reference \<Rightarrow> ('a block heap \<times> Vector) outcome" where
  "pushBack_rvalue p h v val =
     obind (if m_size v \<ge> m_capacity v
            then reAllocate p h v (size_t p (m_capacity v + m_capacity v div 2 + 2))
            else Returns (h, v))
       (\<lambda>(h1, v1).
     obind (read_reference h1 val)
       (\<lambda>s.
     obind (slot_write h1 (m_data v1) (m_size v1) (move s))
       (\<lambda>h2. Returns (h2, v1\<lparr>m_size := size_t p (m_size v1 + 1)\<rparr>))))"

definition popBack :: "'a block heap \<Rightarrow> Vector \<Rightarrow> ('a block heap \<times> Vector) outcome" where
  "popBack h v =
     (if m_size v > 0
      then (let v1 = v\<lparr>m_size := m_size v - 1\<rparr> in
            obind (slot_destroy h (m_data v1) (m_size v1)) (\<lambda>h1. Returns (h1, v1)))
      else Returns (h, v))"

text \<open>
  \<^verbatim>\<open>clear()\<close>. The loop body of the source is \<^verbatim>\<open>m_data[m_size].~T()\<close>: its
  index is \<^verbatim>\<open>m_size\<close>, not the loop variable.
\<close>

definition clear :: "'a block heap \<Rightarrow> Vector \<Rightarrow> ('a block heap \<times> Vector) outcome" where
  "clear h v =
     obind (for_upto (m_size v) (\<lambda>i hh. slot_destroy hh (m_data v) (m_size v)) h)
       (\<lambda>h1. Returns (h1, v\<lparr>m_size := 0\<rparr>))"

text \<open>
  \<^verbatim>\<open>operator[]\<close> (both overloads): the guard \<^verbatim>\<open>if (index >= m_size)\<close> has
  an empty body, and the slot is returned by reference on both paths.
\<close>

definition Vector_index :: "'a block heap \<Rightarrow> Vector \<Rightarrow> nat \<Rightarrow> 'a slot outcome" where
  "Vector_index h v index =
     (if index \<ge> m_size v
      then slot_read h (m_data v) index
      else slot_read h (m_data v) index)"

definition getSize :: "Vector \<Rightarrow> nat" where
  "getSize v = m_size v"

definition isEmpty :: "Vector \<Rightarrow> bool" where
  "isEmpty v = (m_size v = 0)"

text \<open>
  A sequence of calls on one vector, stopping at the first that does not return.
  \<open>PushBackElement i\<close> is \<^verbatim>\<open>v.pushBack(v[i])\<close>: the reference that
  \<^verbatim>\<open>operator[]\<close> returns is passed on.
\<close>

datatype 'a call = PushBack 'a | PushBackElement nat | PopBack | Clear

fun call_op ::
  "platform \<Rightarrow> 'a block heap \<times> Vector \<Rightarrow> 'a call \<Rightarrow> ('a block heap \<times> Vector) outcome" where
  "call_op p (h, v) (PushBack x) = pushBack p h v (Object x)"
| "call_op p (h, v) (PushBackElement i) =
     obind (Vector_index h v i)
       (\<lambda>s. case m_data v of
              None \<Rightarrow> Undefined NullPointer
            | Some a \<Rightarrow> pushBack p h v (Slot a i))"
| "call_op p (h, v) PopBack = popBack h v"
| "call_op p (h, v) Clear = clear h v"

fun run ::
  "platform \<Rightarrow> 'a call list \<Rightarrow> 'a block heap \<times> Vector \<Rightarrow> ('a block heap \<times> Vector) outcome" where
  "run p [] s = Returns s"
| "run p (c # cs) s = obind (call_op p s c) (run p cs)"

text \<open>What the calls mean on the sequence of values held.\<close>

fun call_spec :: "'a list \<Rightarrow> 'a call \<Rightarrow> 'a list" where
  "call_spec xs (PushBack x) = xs @ [x]"
| "call_spec xs (PushBackElement i) = (if i < length xs then xs @ [xs ! i] else xs)"
| "call_spec xs PopBack = butlast xs"
| "call_spec xs Clear = []"

definition held :: "'a call list \<Rightarrow> 'a list" where
  "held cs = foldl call_spec [] cs"

text \<open>
  The size and the capacity after a call, as the growth rule of \<^verbatim>\<open>pushBack\<close> gives
  them, and the calls that stay clear of what the code does not handle: a growth whose
  byte size is beyond \<^verbatim>\<open>size_t\<close>, a reallocation of an existing block of elements
  with a destructor, \<^verbatim>\<open>v.pushBack(v[i])\<close> on a full vector or with \<open>i\<close> not below the
  size, and \<^verbatim>\<open>clear\<close> on a full vector.
\<close>

fun track :: "nat \<times> nat \<Rightarrow> 'a call \<Rightarrow> nat \<times> nat" where
  "track (n, c) (PushBack x) = (n + 1, if n \<ge> c then c + c div 2 + 2 else c)"
| "track (n, c) (PushBackElement i) = (n + 1, c)"
| "track (n, c) PopBack = (n - 1, c)"
| "track (n, c) Clear = (0, c)"

fun handled_call :: "platform \<Rightarrow> nat \<times> nat \<Rightarrow> 'a call \<Rightarrow> bool" where
  "handled_call p (n, c) (PushBack x) =
     (n < c \<or> ((c = 0 \<or> trivially_destructible p) \<and>
               (c + c div 2 + 2) * sizeof_T p \<le> SIZE_MAX p))"
| "handled_call p (n, c) (PushBackElement i) = (i < n \<and> n < c)"
| "handled_call p (n, c) PopBack = True"
| "handled_call p (n, c) Clear = (n = 0 \<or> n < c)"

fun handled :: "platform \<Rightarrow> nat \<times> nat \<Rightarrow> 'a call list \<Rightarrow> bool" where
  "handled p s [] = True"
| "handled p s (c # cs) = (handled_call p s c \<and> handled p (track s c) cs)"

text \<open>
  The representation invariant: the size is within the capacity, and the storage is a
  live block of exactly the capacity (or null, with capacity 0). \<open>holds h v xs\<close> says in
  addition that the first \<open>m_size v\<close> slots hold the values \<open>xs\<close>.
\<close>

definition vec_wf :: "'a block heap \<Rightarrow> Vector \<Rightarrow> bool" where
  "vec_wf h v =
     (m_size v \<le> m_capacity v \<and>
      (case m_data v of
         None \<Rightarrow> m_capacity v = 0
       | Some a \<Rightarrow> a < length h \<and>
           (case h ! a of None \<Rightarrow> False | Some b \<Rightarrow> length b = m_capacity v)))"

definition block_of :: "'a block heap \<Rightarrow> Vector \<Rightarrow> 'a block" where
  "block_of h v =
     (case m_data v of
        None \<Rightarrow> []
      | Some a \<Rightarrow>
          (if a < length h then (case h ! a of None \<Rightarrow> [] | Some b \<Rightarrow> b) else []))"

definition holds :: "'a block heap \<Rightarrow> Vector \<Rightarrow> 'a list \<Rightarrow> bool" where
  "holds h v xs =
     (vec_wf h v \<and> m_size v = length xs \<and> take (length xs) (block_of h v) = map Live xs)"

text \<open>
  What every call that is handled preserves, on a vector that started empty: besides the
  values held, that the bytes of the block are within \<^verbatim>\<open>size_t\<close>, and that a
  vector with a capacity has a block.
\<close>

definition sound :: "platform \<Rightarrow> 'a block heap \<Rightarrow> Vector \<Rightarrow> 'a list \<Rightarrow> bool" where
  "sound p h v xs =
     (holds h v xs \<and> m_capacity v * sizeof_T p \<le> SIZE_MAX p \<and>
      (m_data v = None \<or> 0 < m_capacity v))"

text \<open>Two boards: an AVR with \<^verbatim>\<open>int\<close> and with \<^verbatim>\<open>char\<close> elements, and an
  element type of four bytes that has a destructor.\<close>

definition avr_int :: platform where
  "avr_int = \<lparr>SIZE_MAX = 65535, sizeof_T = 2, trivially_destructible = True\<rparr>"

definition avr_char :: platform where
  "avr_char = \<lparr>SIZE_MAX = 65535, sizeof_T = 1, trivially_destructible = True\<rparr>"

definition avr_object :: platform where
  "avr_object = \<lparr>SIZE_MAX = 65535, sizeof_T = 4, trivially_destructible = False\<rparr>"

section \<open>Array.h\<close>





section \<open>Functional.h\<close>

text \<open>
  The arguments \<^verbatim>\<open>Args...\<close> are one value of type \<open>'a\<close> (a tuple), the result
  \<^verbatim>\<open>R\<close> is \<open>'r\<close>. A pointer to a function is the function; a pointer to a method
  of class \<^verbatim>\<open>C\<close> takes the state \<open>'o\<close> of the object it is called on and
  returns the result with the object's new state. A reference \<^verbatim>\<open>C&\<close> is the
  address of the object in the store of the caller's objects, which the library neither
  allocates nor frees.
\<close>

datatype ('o, 'a, 'r) Callable =
    FunctionCallable "'a \<Rightarrow> 'r"
  | MemberCallable nat "'o \<Rightarrow> 'a \<Rightarrow> 'r \<times> 'o"

type_synonym 'o objects = "nat \<Rightarrow> 'o option"

record Function =
  m_callable :: pointer

text \<open>The two overrides of \<^verbatim>\<open>copy()\<close> and of \<^verbatim>\<open>operator()\<close>.\<close>

fun Callable_copy ::
  "('o, 'a, 'r) Callable heap \<Rightarrow> ('o, 'a, 'r) Callable \<Rightarrow> nat \<times> ('o, 'a, 'r) Callable heap" where
  "Callable_copy h (FunctionCallable m_functionPtr) =
     operator_new h (FunctionCallable m_functionPtr)"
| "Callable_copy h (MemberCallable m_objectReference m_functionPtr) =
     operator_new h (MemberCallable m_objectReference m_functionPtr)"

fun Callable_call ::
  "('o, 'a, 'r) Callable \<Rightarrow> 'o objects \<Rightarrow> 'a \<Rightarrow> ('r \<times> 'o objects) outcome" where
  "Callable_call (FunctionCallable m_functionPtr) os args = Returns (m_functionPtr args, os)"
| "Callable_call (MemberCallable m_objectReference m_functionPtr) os args =
     (case os m_objectReference of
        None \<Rightarrow> Undefined DanglingReference
      | Some obj \<Rightarrow>
          (case m_functionPtr obj args of
             (r, obj') \<Rightarrow> Returns (r, os(m_objectReference \<mapsto> obj'))))"

text \<open>\<^verbatim>\<open>Function(R(*functionPtr)(Args...))\<close>.\<close>

definition Function_from_pointer ::
  "('o, 'a, 'r) Callable heap \<Rightarrow> ('a \<Rightarrow> 'r) \<Rightarrow> ('o, 'a, 'r) Callable heap \<times> Function" where
  "Function_from_pointer h functionPtr =
     (case operator_new h (FunctionCallable functionPtr) of
        (p, h1) \<Rightarrow> (h1, \<lparr>m_callable = Some p\<rparr>))"

text \<open>\<^verbatim>\<open>Function(Function&)\<close> and \<^verbatim>\<open>Function(const Function&)\<close>.\<close>

definition Function_copy ::
  "('o, 'a, 'r) Callable heap \<Rightarrow> Function \<Rightarrow> (('o, 'a, 'r) Callable heap \<times> Function) outcome" where
  "Function_copy h other =
     obind (deref h (m_callable other))
       (\<lambda>c. case Callable_copy h c of (p, h1) \<Rightarrow> Returns (h1, \<lparr>m_callable = Some p\<rparr>))"

text \<open>
  \<^verbatim>\<open>operator=\<close> (both overloads). First its statements: their effect on the heap
  and on the assigned wrapper. \<^verbatim>\<open>other\<close> may be the assigned wrapper itself; its
  \<^verbatim>\<open>m_callable\<close> is read after the \<^verbatim>\<open>delete\<close> and before
  \<^verbatim>\<open>m_callable\<close> is written.
\<close>

definition Function_assign_body ::
  "('o, 'a, 'r) Callable heap \<Rightarrow> Function \<Rightarrow> Function \<Rightarrow>
   (('o, 'a, 'r) Callable heap \<times> Function) outcome" where
  "Function_assign_body h this other =
     obind (if m_callable this \<noteq> None then operator_delete h (m_callable this) else Returns h)
       (\<lambda>h1.
     obind (deref h1 (m_callable other))
       (\<lambda>c. case Callable_copy h1 c of
              (p, h2) \<Rightarrow> Returns (h2, this\<lparr>m_callable := Some p\<rparr>)))"

text \<open>
  Then the operator: it is declared to return \<^verbatim>\<open>Function&\<close> and has no
  \<^verbatim>\<open>return\<close> statement, so control flows off the end of a function that must
  return a value. Every call that gets that far is undefined.
\<close>

definition Function_assign ::
  "('o, 'a, 'r) Callable heap \<Rightarrow> Function \<Rightarrow> Function \<Rightarrow>
   (('o, 'a, 'r) Callable heap \<times> Function) outcome" where
  "Function_assign h this other =
     obind (Function_assign_body h this other) (\<lambda>s. Undefined MissingReturn)"

text \<open>\<^verbatim>\<open>~Function()\<close>.\<close>

definition Function_destroy ::
  "('o, 'a, 'r) Callable heap \<Rightarrow> Function \<Rightarrow> ('o, 'a, 'r) Callable heap outcome" where
  "Function_destroy h f = operator_delete h (m_callable f)"

text \<open>\<^verbatim>\<open>operator()\<close>.\<close>

definition Function_call ::
  "('o, 'a, 'r) Callable heap \<Rightarrow> 'o objects \<Rightarrow> Function \<Rightarrow> 'a \<Rightarrow> ('r \<times> 'o objects) outcome" where
  "Function_call h os f args = obind (deref h (m_callable f)) (\<lambda>c. Callable_call c os args)"

text \<open>The two \<^verbatim>\<open>bind\<close> functions, through the private constructor.\<close>

definition Function_bind ::
  "('o, 'a, 'r) Callable heap \<Rightarrow> ('a \<Rightarrow> 'r) \<Rightarrow> ('o, 'a, 'r) Callable heap \<times> Function" where
  "Function_bind h functionPtr =
     (case operator_new h (FunctionCallable functionPtr) of
        (p, h1) \<Rightarrow> (h1, \<lparr>m_callable = Some p\<rparr>))"

definition Function_bind_member ::
  "('o, 'a, 'r) Callable heap \<Rightarrow> nat \<Rightarrow> ('o \<Rightarrow> 'a \<Rightarrow> 'r \<times> 'o) \<Rightarrow>
   ('o, 'a, 'r) Callable heap \<times> Function" where
  "Function_bind_member h objectRef functionPtr =
     (case operator_new h (MemberCallable objectRef functionPtr) of
        (p, h1) \<Rightarrow> (h1, \<lparr>m_callable = Some p\<rparr>))"

text \<open>
  \<^verbatim>\<open>exampleFunction\<close> of the header's example. Its \<^verbatim>\<open>float\<close> arguments are
  real numbers here; the values used below (2, 5 and 10) are floats and their product is
  exact.
\<close>

definition exampleFunction :: "real \<times> real \<Rightarrow> real" where
  "exampleFunction = (\<lambda>(value1, value2). value1 * value2)"

text \<open>The callable a wrapper owns, and a chain of copies, each made of the one before.\<close>

definition target :: "('o, 'a, 'r) Callable heap \<Rightarrow> Function \<Rightarrow> ('o, 'a, 'r) Callable outcome" where
  "target h f = deref h (m_callable f)"

fun copy_chain ::
  "nat \<Rightarrow> ('o, 'a, 'r) Callable heap \<Rightarrow> Function \<Rightarrow>
   (('o, 'a, 'r) Callable heap \<times> Function list) outcome" where
  "copy_chain 0 h f = Returns (h, [])"
| "copy_chain (Suc n) h f =
     obind (Function_copy h f)
       (\<lambda>(h1, g). obind (copy_chain n h1 g) (\<lambda>(h2, gs). Returns (h2, g # gs)))"

section \<open>Heap, slots and loops\<close>

lemma deref_Some [simp]:
  "a < length h \<Longrightarrow> h ! a = Some c \<Longrightarrow> deref h (Some a) = Returns c"
  by (simp add: deref_def)

lemma deref_None [simp]: "deref h None = Undefined NullPointer"
  by (simp add: deref_def)

lemma deref_new [simp]: "deref (h @ [Some c]) (Some (length h)) = Returns c"
  by (simp add: deref_def)

lemma deref_Returns_iff:
  "deref h p = Returns c \<longleftrightarrow> (\<exists>a. p = Some a \<and> a < length h \<and> h ! a = Some c)"
  by (auto simp: deref_def split: option.splits)

lemma deref_append: "deref h p = Returns c \<Longrightarrow> deref (h @ xs) p = Returns c"
  by (auto simp: deref_Returns_iff nth_append)

lemma operator_delete_live:
  "a < length h \<Longrightarrow> h ! a = Some c \<Longrightarrow> operator_delete h (Some a) = Returns (h[a := None])"
  by (simp add: operator_delete_def)

lemma slot_read_live:
  "a < length h \<Longrightarrow> h ! a = Some b \<Longrightarrow> i < length b \<Longrightarrow>
   slot_read h (Some a) i = Returns (b ! i)"
  by (simp add: slot_read_def)

lemma slot_write_live:
  "a < length h \<Longrightarrow> h ! a = Some b \<Longrightarrow> i < length b \<Longrightarrow>
   slot_write h (Some a) i s = Returns (h[a := Some (b[i := s])])"
  by (simp add: slot_write_def)

text \<open>
  The first loop of \<^verbatim>\<open>reAllocate\<close> copies the first \<open>n\<close> slots of the old block
  into the new one; the second marks the first \<open>n\<close> slots of the old block destroyed.
\<close>

lemma move_loop:
  assumes "a < length h" "h ! a = Some b" "n \<le> length b" "n \<le> length nb"
  shows "for_upto n
           (\<lambda>i hh. obind (slot_read hh (Some a) i)
                      (\<lambda>s. slot_write hh (Some (length h)) i (move s)))
           (h @ [Some nb])
         = Returns (h @ [Some (take n b @ drop n nb)])"
  using assms
proof (induction n)
  case 0
  then show ?case by simp
next
  case (Suc n)
  let ?blk = "take n b @ drop n nb"
  let ?H = "h @ [Some ?blk]"
  have rd: "slot_read ?H (Some a) n = Returns (b ! n)"
    using Suc.prems by (simp add: slot_read_live nth_append)
  have len: "n < length ?blk" using Suc.prems by simp
  have wr: "slot_write ?H (Some (length h)) n (b ! n) = Returns (?H[length h := Some (?blk[n := b ! n])])"
    using len by (simp add: slot_write_live)
  have upd: "?blk[n := b ! n] = take (Suc n) b @ drop (Suc n) nb"
    using Suc.prems
    by (simp add: take_Suc_conv_app_nth list_update_append upd_conv_take_nth_drop min_def)
  from Suc show ?case
    by (simp add: rd wr upd move_def)
qed

lemma destroy_loop:
  assumes "a < length h" "h ! a = Some b" "n \<le> length b"
  shows "for_upto n (\<lambda>i hh. slot_destroy hh (Some a) i) h
         = Returns (h[a := Some (replicate n Destroyed @ drop n b)])"
  using assms
proof (induction n)
  case 0
  then show ?case by (simp add: list_update_same_conv [THEN iffD2])
next
  case (Suc n)
  let ?blk = "replicate n Destroyed @ drop n b"
  let ?H = "h[a := Some ?blk]"
  have wr: "slot_destroy ?H (Some a) n = Returns (?H[a := Some (?blk[n := Destroyed])])"
    using Suc.prems by (simp add: slot_destroy_def slot_write_live)
  have upd: "?blk[n := Destroyed] = replicate (Suc n) Destroyed @ drop (Suc n) b"
    using Suc.prems
    by (simp add: list_update_append upd_conv_take_nth_drop replicate_append_same)
  from Suc show ?case
    by (simp add: wr upd)
qed

text \<open>
  The loop of \<^verbatim>\<open>clear\<close> touches the one slot \<open>k = m_size\<close> in every iteration: it
  marks that slot when it lies in the block, and leaves the block when it does not.
\<close>

lemma clear_loop_in:
  assumes "a < length h" "h ! a = Some b" "k < length b"
  shows "for_upto n (\<lambda>i hh. slot_destroy hh (Some a) k) h =
         Returns (if n = 0 then h else h[a := Some (b[k := Destroyed])])"
proof (induction n)
  case 0
  show ?case by simp
next
  case (Suc n)
  show ?case
  proof (cases "n = 0")
    case True
    then show ?thesis using assms by (simp add: slot_destroy_def slot_write_live)
  next
    case False
    let ?H = "h[a := Some (b[k := Destroyed])]"
    have "slot_destroy ?H (Some a) k = Returns (?H[a := Some ((b[k := Destroyed])[k := Destroyed])])"
      unfolding slot_destroy_def
      by (rule slot_write_live) (use assms in simp_all)
    then show ?thesis using False by (simp add: Suc)
  qed
qed

lemma clear_loop_out:
  assumes "a < length h" "h ! a = Some b" "length b \<le> k"
  shows "for_upto (Suc n) (\<lambda>i hh. slot_destroy hh (Some a) k) h = Undefined OutsideBlock"
proof (induction n)
  case 0
  show ?case using assms by (simp add: slot_destroy_def slot_write_def)
next
  case (Suc n)
  then show ?case by simp
qed

section \<open>Reallocation and the calls of a vector\<close>

lemma size_t_id: "n \<le> SIZE_MAX p \<Longrightarrow> size_t p n = n"
  by (simp add: size_t_def)

lemma new_block_eq:
  "new_block p h n =
     (length h, h @ [Some (replicate (size_t p (n * sizeof_T p) div sizeof_T p) Raw)])"
  by (simp add: new_block_def operator_new_def)

lemma slots_fit:
  "0 < sizeof_T p \<Longrightarrow> n * sizeof_T p \<le> SIZE_MAX p \<Longrightarrow>
   size_t p (n * sizeof_T p) div sizeof_T p = n"
  by (simp add: size_t_id)

lemma fits_le: "0 < sizeof_T p \<Longrightarrow> n * sizeof_T p \<le> SIZE_MAX p \<Longrightarrow> n \<le> SIZE_MAX p"
proof -
  assume pos: "0 < sizeof_T p" and le: "n * sizeof_T p \<le> SIZE_MAX p"
  from pos have "n \<le> n * sizeof_T p" by (cases "sizeof_T p") simp_all
  then show ?thesis using le by (rule order_trans)
qed

text \<open>
  A reallocation of a vector that has a block \<open>b\<close>, into a new block of \<open>ns\<close> slots that
  has room for the \<open>k\<close> elements to move. Nothing is left of it when the element type has
  a destructor.
\<close>

lemma reAllocate_block:
  assumes "m_data v = Some a" "a < length h" "h ! a = Some b" "m_size v \<le> length b"
    and ns: "ns = size_t p (newCapacity * sizeof_T p) div sizeof_T p"
    and k: "k = min (m_size v) newCapacity" "k \<le> ns"
  shows "reAllocate p h v newCapacity =
         (if trivially_destructible p
          then Returns ((h @ [Some (take k b @ replicate (ns - k) Raw)])[a := None],
                        \<lparr>m_data = Some (length h), m_size = k, m_capacity = newCapacity\<rparr>)
          else Undefined MismatchedDelete)"
proof -
  let ?v1 = "if newCapacity < m_size v then v\<lparr>m_size := newCapacity\<rparr> else v"
  let ?nb = "take k b @ replicate (ns - k) Raw"
  let ?H2 = "h @ [Some ?nb]"
  have v1: "m_size ?v1 = k" "m_data ?v1 = Some a"
    using assms(1) k(1) by (auto simp: min_def)
  have kb: "k \<le> length b" using assms(4) k(1) by simp
  have mv: "for_upto k
              (\<lambda>i hh. obind (slot_read hh (Some a) i)
                         (\<lambda>s. slot_write hh (Some (length h)) i (move s)))
              (h @ [Some (replicate ns Raw)]) = Returns ?H2"
    using move_loop [OF assms(2,3) kb, of "replicate ns Raw"] k(2) by simp
  have H2a: "a < length ?H2" "?H2 ! a = Some b"
    using assms(2,3) by (simp_all add: nth_append)
  have ds: "for_upto k (\<lambda>i hh. slot_destroy hh (Some a) i) ?H2
            = Returns (?H2[a := Some (replicate k Destroyed @ drop k b)])"
    using destroy_loop [OF H2a kb] by simp
  have dl: "array_delete p (?H2[a := Some (replicate k Destroyed @ drop k b)]) (Some a)
            = (if trivially_destructible p then Returns (?H2[a := None])
               else Undefined MismatchedDelete)"
    using H2a(1) by (simp add: array_delete_def operator_delete_live)
  have "reAllocate p h v newCapacity =
        obind (array_delete p (?H2[a := Some (replicate k Destroyed @ drop k b)]) (Some a))
          (\<lambda>h4. Returns (h4, ?v1\<lparr>m_data := Some (length h), m_capacity := newCapacity\<rparr>))"
    unfolding reAllocate_def new_block_eq Let_def prod.case v1 ns [symmetric]
    by (simp only: mv ds obind.simps)
  also have "\<dots> = (if trivially_destructible p
          then Returns (?H2[a := None],
                        \<lparr>m_data = Some (length h), m_size = k, m_capacity = newCapacity\<rparr>)
          else Undefined MismatchedDelete)"
    unfolding dl using v1(1) by (cases "newCapacity < m_size v") simp_all
  finally show ?thesis .
qed

lemma reAllocate_null:
  assumes "m_data v = None" "m_size v = 0"
  shows "reAllocate p h v newCapacity =
         Returns (h @ [Some (replicate (size_t p (newCapacity * sizeof_T p) div sizeof_T p) Raw)],
                  \<lparr>m_data = Some (length h), m_size = 0, m_capacity = newCapacity\<rparr>)"
  using assms
  by (simp add: reAllocate_def new_block_eq array_delete_def)

text \<open>
  When the new block is too small for the elements to move, which takes a byte size
  that wrapped around, the loop that moves them writes outside it.
\<close>

lemma move_loop_out:
  assumes "a < length h" "h ! a = Some b" "n \<le> length b" "length nb < n"
  shows "for_upto n
           (\<lambda>i hh. obind (slot_read hh (Some a) i)
                      (\<lambda>s. slot_write hh (Some (length h)) i (move s)))
           (h @ [Some nb])
         = Undefined OutsideBlock"
  using assms
proof (induction n)
  case 0
  then show ?case by simp
next
  case (Suc n)
  show ?case
  proof (cases "length nb < n")
    case True
    then show ?thesis using Suc by simp
  next
    case False
    then have n: "n = length nb" using Suc.prems(4) by simp
    let ?H = "h @ [Some (take n b @ drop n nb)]"
    have lp: "for_upto n
           (\<lambda>i hh. obind (slot_read hh (Some a) i)
                      (\<lambda>s. slot_write hh (Some (length h)) i (move s)))
           (h @ [Some nb]) = Returns ?H"
      by (rule move_loop) (use Suc.prems n in simp_all)
    have rd: "slot_read ?H (Some a) n = Returns (b ! n)"
      using Suc.prems by (simp add: slot_read_live nth_append)
    have wr: "slot_write ?H (Some (length h)) n (move (b ! n)) = Undefined OutsideBlock"
      using Suc.prems n by (simp add: slot_write_def)
    show ?thesis by (simp add: lp rd wr)
  qed
qed

lemma vec_wf_block:
  assumes "vec_wf h v" "0 < m_capacity v"
  obtains a where "m_data v = Some a" "a < length h" "h ! a = Some (block_of h v)"
    "length (block_of h v) = m_capacity v"
  using assms
  by (auto simp: vec_wf_def block_of_def split: option.splits)

lemma vec_wf_null:
  assumes "vec_wf h v" "m_data v = None"
  shows "m_capacity v = 0" "m_size v = 0" "block_of h v = []"
  using assms by (auto simp: vec_wf_def block_of_def)

lemma length_block_of: "vec_wf h v \<Longrightarrow> length (block_of h v) = m_capacity v"
  by (auto simp: vec_wf_def block_of_def split: option.splits)

lemma Vector_index_block:
  assumes "m_data v = Some a" "a < length h" "h ! a = Some b" "i < length b"
  shows "Vector_index h v i = Returns (b ! i)"
  using assms by (simp add: Vector_index_def slot_read_live)

lemma pushBack_rvalue_eq: "pushBack_rvalue p h v r = pushBack p h v r"
  by (simp add: pushBack_rvalue_def pushBack_def move_def)

text \<open>\<^verbatim>\<open>pushBack\<close> below the capacity: the slot read through the reference is stored.\<close>

lemma pushBack_room:
  assumes "vec_wf h v" "m_size v < m_capacity v" "m_data v = Some a"
    "read_reference h r = Returns s"
  shows "pushBack p h v r =
         Returns (h[a := Some ((block_of h v)[m_size v := s])],
                  v\<lparr>m_size := size_t p (m_size v + 1)\<rparr>)"
proof -
  have "a < length h" "h ! a = Some (block_of h v)" "m_size v < length (block_of h v)"
    using assms(1,2,3) by (auto simp: vec_wf_def block_of_def split: option.splits)
  then show ?thesis
    using assms(2,3,4) by (simp add: pushBack_def slot_write_live)
qed

text \<open>
  \<^verbatim>\<open>pushBack\<close> on a full vector that has a block, when the byte size of the grown
  capacity is within \<^verbatim>\<open>size_t\<close>: first the reallocation.
\<close>

lemma reAllocate_grow:
  assumes "vec_wf h v" "m_size v = m_capacity v" "m_data v = Some a"
    "0 < sizeof_T p" "(m_capacity v + m_capacity v div 2 + 2) * sizeof_T p \<le> SIZE_MAX p"
  shows "reAllocate p h v (size_t p (m_capacity v + m_capacity v div 2 + 2)) =
         (if trivially_destructible p
          then Returns ((h @ [Some (block_of h v @ replicate (m_capacity v div 2 + 2) Raw)])
                          [a := None],
                        \<lparr>m_data = Some (length h), m_size = m_capacity v,
                         m_capacity = m_capacity v + m_capacity v div 2 + 2\<rparr>)
          else Undefined MismatchedDelete)"
proof -
  let ?b = "block_of h v"
  let ?c = "m_capacity v"
  let ?c' = "?c + ?c div 2 + 2"
  have a: "a < length h" "h ! a = Some ?b" "length ?b = ?c"
    using assms(1,3) by (auto simp: vec_wf_def block_of_def split: option.splits)
  have c': "size_t p ?c' = ?c'"
    by (rule size_t_id) (rule fits_le [OF assms(4,5)])
  have ns: "?c' = size_t p (?c' * sizeof_T p) div sizeof_T p"
    using slots_fit [OF assms(4,5)] by simp
  have re: "reAllocate p h v ?c' =
         (if trivially_destructible p
          then Returns ((h @ [Some (take ?c ?b @ replicate (?c' - ?c) Raw)])[a := None],
                        \<lparr>m_data = Some (length h), m_size = ?c, m_capacity = ?c'\<rparr>)
          else Undefined MismatchedDelete)"
    by (rule reAllocate_block [OF assms(3) a(1,2) _ ns])
       (use assms(2) a(3) in \<open>simp_all add: min_def\<close>)
  have tk: "take ?c ?b = ?b" using a(3) by simp
  have df: "?c' - ?c = ?c div 2 + 2" by simp
  show ?thesis unfolding c' using re by (simp only: tk df)
qed

lemma pushBack_full_block:
  assumes "vec_wf h v" "m_size v = m_capacity v" "m_data v = Some a"
    "0 < sizeof_T p" "(m_capacity v + m_capacity v div 2 + 2) * sizeof_T p \<le> SIZE_MAX p"
  shows "pushBack p h v (Object x) =
         (if trivially_destructible p
          then Returns ((h @ [Some (block_of h v @ Live x # replicate (m_capacity v div 2 + 1) Raw)])
                          [a := None],
                        \<lparr>m_data = Some (length h), m_size = m_capacity v + 1,
                         m_capacity = m_capacity v + m_capacity v div 2 + 2\<rparr>)
          else Undefined MismatchedDelete)"
proof (cases "trivially_destructible p")
  case False
  then show ?thesis
    unfolding pushBack_def assms(2)
    by (simp only: order_refl if_True if_False reAllocate_grow [OF assms] obind.simps)
next
  case True
  let ?b = "block_of h v"
  let ?c = "m_capacity v"
  have a: "a < length h" "h ! a = Some ?b" "length ?b = ?c"
    using assms(1,3) by (auto simp: vec_wf_def block_of_def split: option.splits)
  let ?H = "(h @ [Some (?b @ replicate (?c div 2 + 2) Raw)])[a := None]"
  have re: "reAllocate p h v (size_t p (?c + ?c div 2 + 2)) =
            Returns (?H, \<lparr>m_data = Some (length h), m_size = ?c, m_capacity = ?c + ?c div 2 + 2\<rparr>)"
    using reAllocate_grow [OF assms] True by simp
  have H: "length h < length ?H" "?H ! length h = Some (?b @ replicate (?c div 2 + 2) Raw)"
    using a(1) by (simp_all add: nth_list_update nth_append)
  have wr: "slot_write ?H (Some (length h)) ?c (Live x) =
            Returns (?H[length h := Some ((?b @ replicate (?c div 2 + 2) Raw)[?c := Live x])])"
    using slot_write_live [OF H, of ?c "Live x"] a(3) by simp
  have upd: "(?b @ replicate (?c div 2 + 2) Raw)[?c := Live x]
             = ?b @ Live x # replicate (?c div 2 + 1) Raw"
    using a(3) by (simp add: list_update_append)
  have H': "?H[length h := Some (?b @ Live x # replicate (?c div 2 + 1) Raw)]
            = (h @ [Some (?b @ Live x # replicate (?c div 2 + 1) Raw)])[a := None]"
    using a(1) by (simp add: list_update_swap list_update_append)
  have "?c + 1 \<le> ?c + ?c div 2 + 2" by simp
  also have "\<dots> \<le> SIZE_MAX p" by (rule fits_le [OF assms(4,5)])
  finally have sz: "size_t p (?c + 1) = ?c + 1" by (rule size_t_id)
  have "pushBack p h v (Object x) =
        obind (slot_write ?H (Some (length h)) ?c (Live x))
          (\<lambda>h2. Returns (h2, \<lparr>m_data = Some (length h), m_size = ?c + 1,
                                m_capacity = ?c + ?c div 2 + 2\<rparr>))"
    unfolding pushBack_def assms(2)
    by (simp only: order_refl if_True re obind.simps prod.case Vector.select_convs
        Vector.update_convs read_reference.simps sz)
  then show ?thesis
    using True by (simp only: wr upd H' obind.simps if_True)
qed

text \<open>
  The same call with a reference to a slot of the vector's own block: the block is freed
  before the reference is read.
\<close>

lemma pushBack_full_own_slot:
  assumes "vec_wf h v" "m_size v = m_capacity v" "m_data v = Some a"
    "0 < sizeof_T p" "(m_capacity v + m_capacity v div 2 + 2) * sizeof_T p \<le> SIZE_MAX p"
  shows "pushBack p h v (Slot a i) =
         Undefined (if trivially_destructible p then FreedMemory else MismatchedDelete)"
proof (cases "trivially_destructible p")
  case False
  then show ?thesis
    unfolding pushBack_def assms(2)
    by (simp only: order_refl if_True if_False reAllocate_grow [OF assms] obind.simps)
next
  case True
  let ?b = "block_of h v"
  let ?c = "m_capacity v"
  have a: "a < length h"
    using assms(1,3) by (auto simp: vec_wf_def split: option.splits)
  let ?H = "(h @ [Some (?b @ replicate (?c div 2 + 2) Raw)])[a := None]"
  have re: "reAllocate p h v (size_t p (?c + ?c div 2 + 2)) =
            Returns (?H, \<lparr>m_data = Some (length h), m_size = ?c, m_capacity = ?c + ?c div 2 + 2\<rparr>)"
    using reAllocate_grow [OF assms] True by simp
  have rd: "read_reference ?H (Slot a i) = Undefined FreedMemory"
    using a by (simp add: slot_read_def deref_def nth_append)
  show ?thesis
    unfolding pushBack_def assms(2) using True
    by (simp only: order_refl if_True re obind.simps prod.case rd)
qed

lemma pushBack_full_null:
  assumes "vec_wf h v" "m_data v = None" "0 < sizeof_T p" "2 * sizeof_T p \<le> SIZE_MAX p"
  shows "pushBack p h v (Object x) =
         Returns (h @ [Some [Live x, Raw]],
                  \<lparr>m_data = Some (length h), m_size = 1, m_capacity = 2\<rparr>)"
proof -
  have z: "m_capacity v = 0" "m_size v = 0"
    using vec_wf_null [OF assms(1,2)] by simp_all
  have two: "size_t p 2 = 2" by (rule size_t_id) (rule fits_le [OF assms(3,4)])
  have one: "size_t p 1 = 1" using fits_le [OF assms(3,4)] by (simp add: size_t_id)
  have re: "reAllocate p h v 2 =
            Returns (h @ [Some [Raw, Raw]], \<lparr>m_data = Some (length h), m_size = 0, m_capacity = 2\<rparr>)"
    using reAllocate_null [OF assms(2) z(2), of p h 2] slots_fit [OF assms(3,4)]
    by (simp add: numeral_2_eq_2)
  have "pushBack p h v (Object x) =
        obind (slot_write (h @ [Some [Raw, Raw]]) (Some (length h)) 0 (Live x))
          (\<lambda>h2. Returns (h2, \<lparr>m_data = Some (length h), m_size = 1, m_capacity = 2\<rparr>))"
    unfolding pushBack_def z
    by (simp only: order_refl if_True re obind.simps prod.case Vector.select_convs
        Vector.update_convs div_0 add_0 two one read_reference.simps)
  then show ?thesis
    by (simp add: slot_write_live)
qed

text \<open>
  When the grown capacity wraps around to a value below the size, the reallocation
  clamps the size, and the assignment that follows writes one slot past the new block.
\<close>

lemma pushBack_growth_wraps:
  assumes "vec_wf h v" "m_size v = m_capacity v" "m_data v = Some a"
    "0 < sizeof_T p" "trivially_destructible p"
    and w: "w = size_t p (m_capacity v + m_capacity v div 2 + 2)"
      "w < m_capacity v" "w * sizeof_T p \<le> SIZE_MAX p"
  shows "pushBack p h v (Object x) = Undefined OutsideBlock"
proof -
  let ?b = "block_of h v"
  have a: "a < length h" "h ! a = Some ?b" "length ?b = m_capacity v"
    using assms(1,3) by (auto simp: vec_wf_def block_of_def split: option.splits)
  have ns: "w = size_t p (w * sizeof_T p) div sizeof_T p"
    using slots_fit [OF assms(4) w(3)] by simp
  let ?H = "(h @ [Some (take w ?b)])[a := None]"
  have "reAllocate p h v w =
         (if trivially_destructible p
          then Returns ((h @ [Some (take w ?b @ replicate (w - w) Raw)])[a := None],
                        \<lparr>m_data = Some (length h), m_size = w, m_capacity = w\<rparr>)
          else Undefined MismatchedDelete)"
    by (rule reAllocate_block [OF assms(3) a(1,2) _ ns])
       (use assms(2) a(3) w(2) in \<open>simp_all add: min_def\<close>)
  then have re: "reAllocate p h v w =
                 Returns (?H, \<lparr>m_data = Some (length h), m_size = w, m_capacity = w\<rparr>)"
    using assms(5) by simp
  have wr: "slot_write ?H (Some (length h)) w (Live x) = Undefined OutsideBlock"
    using a(1,3) w(2) by (simp add: slot_write_def deref_def nth_list_update nth_append)
  show ?thesis
    unfolding pushBack_def assms(2) w(1) [symmetric]
    by (simp only: order_refl if_True re obind.simps prod.case Vector.select_convs
        read_reference.simps wr)
qed

lemma clear_result:
  assumes "vec_wf h v" "m_data v = Some a"
  shows "clear h v =
         (if m_size v = 0 then Returns (h, v)
          else if m_size v < m_capacity v
          then Returns (h[a := Some ((block_of h v)[m_size v := Destroyed])], v\<lparr>m_size := 0\<rparr>)
          else Undefined OutsideBlock)"
proof -
  have a: "a < length h" "h ! a = Some (block_of h v)" "length (block_of h v) = m_capacity v"
    using assms by (auto simp: vec_wf_def block_of_def split: option.splits)
  show ?thesis
  proof (cases "m_size v")
    case 0
    then show ?thesis by (simp add: clear_def)
  next
    case (Suc n)
    show ?thesis
    proof (cases "m_size v < m_capacity v")
      case True
      then show ?thesis
        using clear_loop_in [OF a(1,2), of "m_size v" "m_size v"] a(3) assms(2) Suc
        by (simp add: clear_def)
    next
      case False
      then show ?thesis
        using clear_loop_out [OF a(1,2), of "m_size v" n] a(3) assms(2) Suc
        by (simp add: clear_def)
    qed
  qed
qed

subsection \<open>The values held are preserved by every handled call\<close>

lemma holdsI:
  assumes "m_data v = Some a" "a < length h" "h ! a = Some b" "length b = m_capacity v"
    "m_size v = length xs" "length xs \<le> m_capacity v" "take (length xs) b = map Live xs"
  shows "holds h v xs"
  using assms by (simp add: holds_def vec_wf_def block_of_def)

lemma holds_empty: "holds h Vector_empty []"
  by (simp add: holds_def vec_wf_def Vector_empty_def)

lemma sound_empty: "sound p h Vector_empty []"
  by (simp add: sound_def holds_empty) (simp add: Vector_empty_def)

lemma vec_wf_size_0: "vec_wf h v \<Longrightarrow> holds h (v\<lparr>m_size := 0\<rparr>) []"
  by (auto simp: holds_def vec_wf_def split: option.splits)

lemma Vector_with_capacity_holds:
  assumes "0 < sizeof_T p" "n * sizeof_T p \<le> SIZE_MAX p"
  shows "Vector_with_capacity p h n =
           Returns (h @ [Some (replicate n Raw)],
                    \<lparr>m_data = Some (length h), m_size = 0, m_capacity = n\<rparr>) \<and>
         holds (h @ [Some (replicate n Raw)])
           \<lparr>m_data = Some (length h), m_size = 0, m_capacity = n\<rparr> []"
proof -
  have "reAllocate p h Vector_empty n =
        Returns (h @ [Some (replicate n Raw)], \<lparr>m_data = Some (length h), m_size = 0, m_capacity = n\<rparr>)"
    using reAllocate_null [of Vector_empty p h n] slots_fit [OF assms]
    by (simp add: Vector_empty_def)
  moreover have "holds (h @ [Some (replicate n Raw)])
                   \<lparr>m_data = Some (length h), m_size = 0, m_capacity = n\<rparr> ([] :: 'a list)"
    by (rule holdsI [where a = "length h" and b = "replicate n Raw"]) simp_all
  ultimately show ?thesis by (simp add: Vector_with_capacity_def)
qed

text \<open>A byte size that wrapped around leaves the constructor's block short of the capacity.\<close>

lemma Vector_with_capacity_wraps:
  "Vector_with_capacity avr_int [] 40000 =
     Returns ([Some (replicate 7232 Raw)], \<lparr>m_data = Some 0, m_size = 0, m_capacity = 40000\<rparr>)"
proof -
  have "size_t avr_int (40000 * sizeof_T avr_int) div sizeof_T avr_int = 7232"
    by (simp add: size_t_def avr_int_def)
  then show ?thesis
    using reAllocate_null [of Vector_empty avr_int "[]" 40000]
    by (simp add: Vector_with_capacity_def Vector_empty_def)
qed

lemma pushBack_step:
  assumes "0 < sizeof_T p" "sound p h v xs"
    "handled_call p (m_size v, m_capacity v) (PushBack x)"
  shows "\<exists>h' v'. pushBack p h v (Object x) = Returns (h', v') \<and> sound p h' v' (xs @ [x]) \<and>
           (m_size v', m_capacity v') = track (m_size v, m_capacity v) (PushBack x)"
proof -
  let ?b = "block_of h v"
  let ?c = "m_capacity v"
  from assms(2) have hl: "holds h v xs" and fit: "?c * sizeof_T p \<le> SIZE_MAX p"
    and nn: "m_data v = None \<or> 0 < ?c"
    by (simp_all add: sound_def)
  from hl have wf: "vec_wf h v" and n: "m_size v = length xs"
    and tk: "take (length xs) ?b = map Live xs"
    by (simp_all add: holds_def)
  have le: "m_size v \<le> ?c" using wf by (simp add: vec_wf_def)
  have lb: "length ?b = ?c" using wf by (rule length_block_of)
  show ?thesis
  proof (cases "m_size v < ?c")
    case True
    then have "0 < ?c" by simp
    from vec_wf_block [OF wf this] obtain a where
      a: "m_data v = Some a" "a < length h" "h ! a = Some ?b" "length ?b = ?c" .
    have "m_size v + 1 \<le> ?c" using True by simp
    also have "\<dots> \<le> SIZE_MAX p" by (rule fits_le [OF assms(1) fit])
    finally have sz: "size_t p (m_size v + 1) = m_size v + 1" by (rule size_t_id)
    have p: "pushBack p h v (Object x) =
             Returns (h[a := Some (?b[m_size v := Live x])], v\<lparr>m_size := m_size v + 1\<rparr>)"
      using pushBack_room [OF wf True a(1), of "Object x" "Live x" p] sz by simp
    have tk': "take (length (xs @ [x])) (?b[length xs := Live x]) = map Live (xs @ [x])"
      using True n lb tk by (simp add: take_Suc_conv_app_nth)
    have "holds (h[a := Some (?b[m_size v := Live x])]) (v\<lparr>m_size := m_size v + 1\<rparr>) (xs @ [x])"
      by (rule holdsI [where a = a and b = "?b[m_size v := Live x]"])
         (use a n True tk' in simp_all)
    then have "sound p (h[a := Some (?b[m_size v := Live x])]) (v\<lparr>m_size := m_size v + 1\<rparr>)
                 (xs @ [x])"
      using fit True by (simp add: sound_def)
    then show ?thesis using p True by simp
  next
    case False
    then have full: "m_size v = ?c" using le by simp
    from assms(3) False have ok: "?c = 0 \<or> trivially_destructible p"
      and grow: "(?c + ?c div 2 + 2) * sizeof_T p \<le> SIZE_MAX p"
      by simp_all
    show ?thesis
    proof (cases "m_data v")
      case None
      have z: "?c = 0" "xs = []" using vec_wf_null [OF wf None] n by simp_all
      have two: "2 * sizeof_T p \<le> SIZE_MAX p" using grow z by simp
      have p: "pushBack p h v (Object x) =
               Returns (h @ [Some [Live x, Raw]],
                        \<lparr>m_data = Some (length h), m_size = 1, m_capacity = 2\<rparr>)"
        by (rule pushBack_full_null [OF wf None assms(1) two])
      have "holds (h @ [Some [Live x, Raw]])
              \<lparr>m_data = Some (length h), m_size = 1, m_capacity = 2\<rparr> [x]"
        by (rule holdsI [where a = "length h" and b = "[Live x, Raw]"]) simp_all
      then have "sound p (h @ [Some [Live x, Raw]])
              \<lparr>m_data = Some (length h), m_size = 1, m_capacity = 2\<rparr> ([] @ [x])"
        using two by (simp add: sound_def)
      then show ?thesis using p z full by simp
    next
      case (Some a)
      then have "0 < ?c" using nn by simp
      then have tr: "trivially_destructible p" using ok by simp
      have a: "a < length h" using wf Some by (simp add: vec_wf_def)
      have b: "?b = map Live xs" using tk lb full n by simp
      let ?nb = "?b @ Live x # replicate (?c div 2 + 1) Raw"
      let ?h' = "(h @ [Some ?nb])[a := None]"
      let ?v' = "\<lparr>m_data = Some (length h), m_size = ?c + 1, m_capacity = ?c + ?c div 2 + 2\<rparr>"
      have p: "pushBack p h v (Object x) = Returns (?h', ?v')"
        using pushBack_full_block [OF wf full Some assms(1) grow, of x] tr by simp
      have "holds ?h' ?v' (xs @ [x])"
        by (rule holdsI [where a = "length h" and b = ?nb])
           (use a lb n full b in \<open>simp_all add: nth_list_update nth_append\<close>)
      then have "sound p ?h' ?v' (xs @ [x])"
        using grow by (simp add: sound_def)
      then show ?thesis using p full by simp
    qed
  qed
qed

lemma pushBackElement_step:
  assumes "0 < sizeof_T p" "sound p h v xs"
    "handled_call p (m_size v, m_capacity v) (PushBackElement i)"
  shows "\<exists>h' v'. call_op p (h, v) (PushBackElement i) = Returns (h', v') \<and>
           sound p h' v' (xs @ [xs ! i]) \<and>
           (m_size v', m_capacity v') = track (m_size v, m_capacity v) (PushBackElement i)"
proof -
  let ?b = "block_of h v"
  let ?c = "m_capacity v"
  from assms(2) have hl: "holds h v xs" and fit: "?c * sizeof_T p \<le> SIZE_MAX p"
    by (simp_all add: sound_def)
  from hl have wf: "vec_wf h v" and n: "m_size v = length xs"
    and tk: "take (length xs) ?b = map Live xs"
    by (simp_all add: holds_def)
  from assms(3) have i: "i < m_size v" and room: "m_size v < ?c" by simp_all
  then have "0 < ?c" by simp
  from vec_wf_block [OF wf this] obtain a where
    a: "m_data v = Some a" "a < length h" "h ! a = Some ?b" "length ?b = ?c" .
  have "?b ! i = take (length xs) ?b ! i" using i n by simp
  then have bi: "?b ! i = Live (xs ! i)" using i n by (simp add: tk)
  have ib: "i < length ?b" using i room a(4) by simp
  have ix: "Vector_index h v i = Returns (Live (xs ! i))"
    using Vector_index_block [OF a(1,2,3) ib] bi by simp
  have rd: "read_reference h (Slot a i) = Returns (Live (xs ! i))"
    using slot_read_live [OF a(2,3) ib] bi by simp
  have "m_size v + 1 \<le> ?c" using room by simp
  also have "\<dots> \<le> SIZE_MAX p" by (rule fits_le [OF assms(1) fit])
  finally have sz: "size_t p (m_size v + 1) = m_size v + 1" by (rule size_t_id)
  have p: "pushBack p h v (Slot a i) =
           Returns (h[a := Some (?b[m_size v := Live (xs ! i)])], v\<lparr>m_size := m_size v + 1\<rparr>)"
    using pushBack_room [OF wf room a(1) rd, of p] sz by simp
  have tk': "take (length (xs @ [xs ! i])) (?b[length xs := Live (xs ! i)])
             = map Live (xs @ [xs ! i])"
    using room n a(4) tk by (simp add: take_Suc_conv_app_nth)
  have "holds (h[a := Some (?b[m_size v := Live (xs ! i)])]) (v\<lparr>m_size := m_size v + 1\<rparr>)
          (xs @ [xs ! i])"
    by (rule holdsI [where a = a and b = "?b[m_size v := Live (xs ! i)]"])
       (use a n room tk' in simp_all)
  then have "sound p (h[a := Some (?b[m_size v := Live (xs ! i)])]) (v\<lparr>m_size := m_size v + 1\<rparr>)
               (xs @ [xs ! i])"
    using fit room by (simp add: sound_def)
  then show ?thesis using p ix a(1) by simp
qed

lemma popBack_holds:
  assumes "holds h v xs"
  shows "\<exists>h' v'. popBack h v = Returns (h', v') \<and> holds h' v' (butlast xs) \<and>
           m_capacity v' = m_capacity v \<and> m_data v' = m_data v \<and> m_size v' = m_size v - 1"
proof (cases "xs = []")
  case True
  then show ?thesis using assms by (simp add: popBack_def holds_def)
next
  case False
  let ?b = "block_of h v"
  from assms have wf: "vec_wf h v" and n: "m_size v = length xs"
    and tk: "take (length xs) ?b = map Live xs"
    by (simp_all add: holds_def)
  have pos: "0 < m_size v" using False n by simp
  then have "0 < m_capacity v" using wf by (simp add: vec_wf_def)
  from vec_wf_block [OF wf this] obtain a where
    a: "m_data v = Some a" "a < length h" "h ! a = Some ?b" "length ?b = m_capacity v" .
  have le: "m_size v \<le> m_capacity v" using wf by (simp add: vec_wf_def)
  have lt: "m_size v - 1 < length ?b" using pos le a(4) by simp
  have pop: "popBack h v = Returns (h[a := Some (?b[m_size v - 1 := Destroyed])],
                                    v\<lparr>m_size := m_size v - 1\<rparr>)"
    using pos a lt by (simp add: popBack_def slot_destroy_def slot_write_live)
  have tk': "take (length (butlast xs)) (?b[m_size v - 1 := Destroyed]) = map Live (butlast xs)"
  proof -
    have "take (length xs - 1) ?b = take (length xs - 1) (take (length xs) ?b)"
      by (simp add: min_def)
    then show ?thesis by (simp add: n tk butlast_conv_take take_map)
  qed
  have "holds (h[a := Some (?b[m_size v - 1 := Destroyed])]) (v\<lparr>m_size := m_size v - 1\<rparr>)
          (butlast xs)"
    by (rule holdsI [where a = a and b = "?b[m_size v - 1 := Destroyed]"])
       (use a n le tk' in simp_all)
  then show ?thesis using pop by simp
qed

lemma clear_holds:
  assumes "holds h v xs" "m_size v = 0 \<or> m_size v < m_capacity v"
  shows "\<exists>h' v'. clear h v = Returns (h', v') \<and> holds h' v' [] \<and>
           m_capacity v' = m_capacity v \<and> m_data v' = m_data v \<and> m_size v' = 0"
proof (cases "m_size v = 0")
  case True
  from assms(1) have "vec_wf h v" by (simp add: holds_def)
  from vec_wf_size_0 [OF this] show ?thesis
    using True by (simp add: clear_def)
next
  case False
  then have room: "m_size v < m_capacity v" using assms(2) by simp
  from assms(1) have wf: "vec_wf h v" by (simp add: holds_def)
  have "0 < m_capacity v" using room by simp
  from vec_wf_block [OF wf this] obtain a where
    a: "m_data v = Some a" "a < length h" "h ! a = Some (block_of h v)"
       "length (block_of h v) = m_capacity v" .
  have "clear h v = Returns (h[a := Some ((block_of h v)[m_size v := Destroyed])],
                             v\<lparr>m_size := 0\<rparr>)"
    using clear_result [OF wf a(1)] False room by simp
  moreover have "holds (h[a := Some ((block_of h v)[m_size v := Destroyed])])
                   (v\<lparr>m_size := 0\<rparr>) []"
    by (rule holdsI [where a = a and b = "(block_of h v)[m_size v := Destroyed]"])
       (use a in simp_all)
  ultimately show ?thesis by simp
qed

lemma call_step:
  assumes "0 < sizeof_T p" "sound p h v xs" "handled_call p (m_size v, m_capacity v) c"
  shows "\<exists>h' v'. call_op p (h, v) c = Returns (h', v') \<and> sound p h' v' (call_spec xs c) \<and>
           (m_size v', m_capacity v') = track (m_size v, m_capacity v) c"
proof (cases c)
  case (PushBack x)
  then show ?thesis using pushBack_step [OF assms(1,2), of x] assms(3) by simp
next
  case (PushBackElement i)
  have "i < length xs" using assms(2,3) PushBackElement by (simp add: sound_def holds_def)
  then show ?thesis
    using pushBackElement_step [OF assms(1,2), of i] assms(3) PushBackElement by simp
next
  case PopBack
  from assms(2) have hl: "holds h v xs" by (simp add: sound_def)
  from popBack_holds [OF hl] obtain h' v' where
    "popBack h v = Returns (h', v')" "holds h' v' (butlast xs)"
    "m_capacity v' = m_capacity v" "m_data v' = m_data v" "m_size v' = m_size v - 1" by blast
  then show ?thesis using assms(2) PopBack by (auto simp: sound_def)
next
  case Clear
  from assms(2) have hl: "holds h v xs" by (simp add: sound_def)
  from assms(3) Clear have "m_size v = 0 \<or> m_size v < m_capacity v" by simp
  from clear_holds [OF hl this] obtain h' v' where
    "clear h v = Returns (h', v')" "holds h' v' []"
    "m_capacity v' = m_capacity v" "m_data v' = m_data v" "m_size v' = 0" by blast
  then show ?thesis using assms(2) Clear by (auto simp: sound_def)
qed

lemma run_handled:
  assumes "0 < sizeof_T p"
  shows "sound p h v xs \<Longrightarrow> handled p (m_size v, m_capacity v) cs \<Longrightarrow>
         \<exists>h' v'. run p cs (h, v) = Returns (h', v') \<and> sound p h' v' (foldl call_spec xs cs) \<and>
           (m_size v', m_capacity v') = foldl track (m_size v, m_capacity v) cs"
proof (induction cs arbitrary: h v xs)
  case Nil
  then show ?case by simp
next
  case (Cons c cs)
  from Cons.prems(2) have hc: "handled_call p (m_size v, m_capacity v) c"
    and rest: "handled p (track (m_size v, m_capacity v) c) cs" by simp_all
  from call_step [OF assms Cons.prems(1) hc] obtain h1 v1 where
    s: "call_op p (h, v) c = Returns (h1, v1)" "sound p h1 v1 (call_spec xs c)"
       "(m_size v1, m_capacity v1) = track (m_size v, m_capacity v) c" by blast
  from Cons.IH [OF s(2)] rest s(3) obtain h' v' where
    "run p cs (h1, v1) = Returns (h', v')"
    "sound p h' v' (foldl call_spec (call_spec xs c) cs)"
    "(m_size v', m_capacity v') = foldl track (m_size v1, m_capacity v1) cs" by auto
  then show ?case using s(1,3) by simp
qed

lemma run_append: "run p (cs @ ds) s = obind (run p cs s) (run p ds)"
proof (induction cs arbitrary: s)
  case Nil
  show ?case by simp
next
  case (Cons c cs)
  show ?case
  proof (cases "call_op p s c")
    case (Returns s')
    then show ?thesis using Cons.IH [of s'] by simp
  next
    case (Signals x)
    then show ?thesis by simp
  next
    case (Undefined x)
    then show ?thesis by simp
  qed
qed

lemma holds_index:
  assumes "holds h v xs" "i < length xs"
  shows "Vector_index h v i = Returns (Live (xs ! i))"
proof -
  from assms have wf: "vec_wf h v" and n: "m_size v = length xs"
    and tk: "take (length xs) (block_of h v) = map Live xs"
    by (simp_all add: holds_def)
  have "0 < m_capacity v" using assms(2) n wf by (simp add: vec_wf_def)
  from vec_wf_block [OF wf this] obtain a where
    a: "m_data v = Some a" "a < length h" "h ! a = Some (block_of h v)"
       "length (block_of h v) = m_capacity v" .
  have "block_of h v ! i = take (length xs) (block_of h v) ! i" using assms(2) by simp
  also have "\<dots> = Live (xs ! i)" using assms(2) by (simp add: tk)
  finally have "block_of h v ! i = Live (xs ! i)" .
  moreover have "i < length (block_of h v)" using assms(2) n wf a(4) by (simp add: vec_wf_def)
  ultimately show ?thesis
    using a by (simp add: Vector_index_def slot_read_live)
qed

lemma holds_indices:
  assumes "holds h v xs"
  shows "map (Vector_index h v) [0..<length xs] = map (\<lambda>x. Returns (Live x)) xs"
  by (rule nth_equalityI) (simp_all add: holds_index [OF assms])

text \<open>
  Appending \<open>n\<close> values to a vector that started empty, with elements that have a trivial
  destructor, is handled when the bytes of one and a half times \<open>n\<close> elements are within
  \<^verbatim>\<open>size_t\<close>.
\<close>

lemma handled_pushes:
  assumes "trivially_destructible p"
  shows "2 * c \<le> 3 * n + 4 \<Longrightarrow> (3 * (n + length xs) + 1) * sizeof_T p \<le> 2 * SIZE_MAX p \<Longrightarrow>
         handled p (n, c) (map PushBack xs)"
proof (induction xs arbitrary: n c)
  case Nil
  show ?case by simp
next
  case (Cons x xs)
  let ?c' = "if n \<ge> c then c + c div 2 + 2 else c"
  have c': "2 * ?c' \<le> 3 * (n + 1) + 4" using Cons.prems(1) by auto
  have b': "(3 * ((n + 1) + length xs) + 1) * sizeof_T p \<le> 2 * SIZE_MAX p"
    using Cons.prems(2) by (simp add: algebra_simps)
  have rest: "handled p (n + 1, ?c') (map PushBack xs)"
    by (rule Cons.IH [OF c' b'])
  have grow: "(c + c div 2 + 2) * sizeof_T p \<le> SIZE_MAX p" if "c \<le> n"
  proof -
    define A where "A = (c + c div 2 + 2) * sizeof_T p"
    have "2 * (c + c div 2 + 2) \<le> 3 * (n + length (x # xs)) + 1" using that by simp
    then have "2 * (c + c div 2 + 2) * sizeof_T p \<le> (3 * (n + length (x # xs)) + 1) * sizeof_T p"
      by (rule mult_le_mono1)
    then have "2 * (c + c div 2 + 2) * sizeof_T p \<le> 2 * SIZE_MAX p"
      using Cons.prems(2) by (rule order_trans)
    moreover have "2 * (c + c div 2 + 2) * sizeof_T p = 2 * A"
      by (simp add: A_def)
    ultimately have "A \<le> SIZE_MAX p" by simp
    then show ?thesis by (simp add: A_def)
  qed
  show ?case
  proof (cases "n < c")
    case True
    then show ?thesis using rest by simp
  next
    case False
    then have "c \<le> n" by simp
    from grow [OF this] show ?thesis using rest assms False by simp
  qed
qed

section \<open>The claims on the growable sequence\<close>

text \<open>Evaluating the calls at given vectors.\<close>

lemma for_upto_numeral:
  "for_upto (numeral k) body s = obind (for_upto (pred_numeral k) body s) (body (pred_numeral k))"
  by (simp add: numeral_eq_Suc)

lemma list_update_numeral:
  "(x # xs)[numeral k := y] = x # xs[pred_numeral k := y]"
  by (simp add: numeral_eq_Suc)

lemma replicate_by_numeral:
  "replicate (numeral k) x = x # replicate (pred_numeral k) x"
  by (simp add: numeral_eq_Suc)

lemmas evals = list_update_numeral replicate_by_numeral for_upto_numeral
  pushBack_def reAllocate_def new_block_def operator_new_def array_delete_def
  operator_delete_def size_t_def slot_write_def slot_read_def slot_destroy_def deref_def
  Vector_empty_def move_def popBack_def clear_def Vector_index_def
  avr_int_def avr_char_def avr_object_def nth_append

lemma handled_short:
  assumes "length xs \<le> 2" "(3 * length xs + 1) * sizeof_T p \<le> 2 * SIZE_MAX p"
  shows "handled p (0, 0) (map PushBack xs)"
proof -
  consider "xs = []" | x where "xs = [x]" | x y where "xs = [x, y]"
    using assms(1) by (cases xs rule: list.exhaust; cases "tl xs"; cases "tl (tl xs)") auto
  then show ?thesis
  proof cases
    case 1
    then show ?thesis by simp
  next
    case 2
    then show ?thesis using assms(2) by simp
  next
    case 3
    then show ?thesis using assms(2) by simp
  qed
qed

lemma run_pushes_handled:
  assumes "0 < sizeof_T p" "handled p (0, 0) (map PushBack xs)"
  shows "\<exists>h' v. run p (map PushBack xs) (h, Vector_empty) = Returns (h', v) \<and> sound p h' v xs"
proof -
  have "foldl call_spec ys (map PushBack xs) = ys @ xs" for ys :: "'a list"
    by (induction xs arbitrary: ys) simp_all
  then have f: "foldl call_spec [] (map PushBack xs) = xs" by simp
  have "handled p (m_size Vector_empty, m_capacity Vector_empty) (map PushBack xs)"
    using assms(2) by (simp add: Vector_empty_def)
  from run_handled [OF assms(1) sound_empty this, of h] show ?thesis
    unfolding f by blast
qed

lemma third_push_aborts:
  assumes "0 < sizeof_T p" "\<not> trivially_destructible p" "5 * sizeof_T p \<le> SIZE_MAX p"
  shows "run p (map PushBack (x # y # z # zs)) (h, Vector_empty) = Undefined MismatchedDelete"
proof -
  have hd: "handled p (0, 0) (map PushBack [x, y])" using assms(3) by simp
  from run_pushes_handled [OF assms(1) hd, of h] obtain h' v where
    r: "run p (map PushBack [x, y]) (h, Vector_empty) = Returns (h', v)"
    and s: "sound p h' v [x, y]" by blast
  have tr: "(m_size v, m_capacity v) = foldl track (0, 0) (map PushBack [x, y])"
  proof -
    have "handled p (m_size Vector_empty, m_capacity Vector_empty) (map PushBack [x, y])"
      using hd by (simp add: Vector_empty_def)
    from run_handled [OF assms(1) sound_empty this, of h] r show ?thesis
      by (auto simp: Vector_empty_def)
  qed
  then have sc: "m_size v = 2" "m_capacity v = 2" by simp_all
  from s have wf: "vec_wf h' v" by (simp add: sound_def holds_def)
  have "0 < m_capacity v" using sc by simp
  from vec_wf_block [OF wf this] obtain a where a: "m_data v = Some a" by blast
  have full: "m_size v = m_capacity v" using sc by simp
  have grow: "(m_capacity v + m_capacity v div 2 + 2) * sizeof_T p \<le> SIZE_MAX p"
    using assms(3) sc by simp
  have third: "pushBack p h' v (Object z) = Undefined MismatchedDelete"
    using pushBack_full_block [OF wf full a assms(1) grow, of z] assms(2) by simp
  have "map PushBack (x # y # z # zs) = map PushBack [x, y] @ map PushBack (z # zs)" by simp
  then have e: "run p (map PushBack (x # y # z # zs)) (h, Vector_empty) =
             obind (run p (map PushBack [x, y]) (h, Vector_empty)) (run p (map PushBack (z # zs)))"
    by (simp only: run_append)
  have t: "run p (map PushBack (z # zs)) (h', v) = Undefined MismatchedDelete"
    by (simp add: third)
  show ?thesis unfolding e r by (simp only: obind.simps t)
qed

text \<open>
  C1. Appending the values \<open>xs\<close> in order to an empty vector by \<^verbatim>\<open>pushBack\<close> and
  reading the indices \<open>0, \<dots>, length xs - 1\<close> back with \<^verbatim>\<open>operator[]\<close>, when the
  bytes of the capacities reached are within \<^verbatim>\<open>size_t\<close> (those of one and a half
  times \<open>length xs\<close> elements are enough). For an element type with a trivial destructor,
  and for at most two values of any element type, every call returns and the values read
  back are exactly the values of \<open>xs\<close>, in the same order. For an element type with a
  destructor the third \<^verbatim>\<open>pushBack\<close> is the first to reallocate a vector that has a
  block: its \<^verbatim>\<open>delete[]\<close> of a block that came from \<^verbatim>\<open>::operator new\<close> is
  undefined, and nothing is read back.
\<close>

theorem pushBack_round_trip:
  assumes "0 < sizeof_T p" "(3 * length xs + 1) * sizeof_T p \<le> 2 * SIZE_MAX p"
  shows "if trivially_destructible p \<or> length xs \<le> 2
         then (\<exists>h' v. run p (map PushBack xs) (h, Vector_empty) = Returns (h', v) \<and>
                 getSize v = length xs \<and>
                 map (Vector_index h' v) [0..<length xs] = map (\<lambda>x. Returns (Live x)) xs)
         else run p (map PushBack xs) (h, Vector_empty) = Undefined MismatchedDelete"
proof (cases "trivially_destructible p \<or> length xs \<le> 2")
  case True
  have hd: "handled p (0, 0) (map PushBack xs)"
  proof (cases "trivially_destructible p")
    case True
    show ?thesis
      by (rule handled_pushes [OF True]) (use assms(2) in simp_all)
  next
    case False
    then have "length xs \<le> 2" using \<open>trivially_destructible p \<or> length xs \<le> 2\<close> by simp
    then show ?thesis using assms(2) by (rule handled_short)
  qed
  from run_pushes_handled [OF assms(1) hd, of h] obtain h' v where
    r: "run p (map PushBack xs) (h, Vector_empty) = Returns (h', v)" and s: "sound p h' v xs"
    by blast
  from s have hl: "holds h' v xs" by (simp add: sound_def)
  then have "getSize v = length xs" by (simp add: holds_def getSize_def)
  with r holds_indices [OF hl] True show ?thesis by auto
next
  case False
  then have nt: "\<not> trivially_destructible p" and len: "3 \<le> length xs" by simp_all
  from len obtain x y z zs where xs: "xs = x # y # z # zs"
    by (cases xs; cases "tl xs"; cases "tl (tl xs)") auto
  have "10 \<le> 3 * length xs + 1" using len by simp
  then have "10 * sizeof_T p \<le> (3 * length xs + 1) * sizeof_T p"
    by (rule mult_le_mono1)
  then have "10 * sizeof_T p \<le> 2 * SIZE_MAX p" using assms(2) by (rule order_trans)
  then have five: "5 * sizeof_T p \<le> SIZE_MAX p" by linarith
  show ?thesis
    using False third_push_aborts [OF assms(1) nt five, of x y z zs h] xs by simp
qed

theorem pushBack_round_trip_witness:
  "run avr_int (map PushBack [10, 20, 30::int]) ([], Vector_empty) =
     Returns ([None, Some [Live 10, Live 20, Live 30, Raw, Raw]],
              \<lparr>m_data = Some 1, m_size = 3, m_capacity = 5\<rparr>) \<and>
   map (Vector_index [None, Some [Live 10, Live 20, Live 30, Raw, Raw]]
          \<lparr>m_data = Some 1, m_size = 3, m_capacity = 5\<rparr>) [0..<3] =
     [Returns (Live (10::int)), Returns (Live 20), Returns (Live 30)] \<and>
   run avr_object (map PushBack [10, 20, 30::int]) ([], Vector_empty) = Undefined MismatchedDelete"
proof -
  have r: "run avr_int (map PushBack [10, 20, 30::int]) ([], Vector_empty) =
     Returns ([None, Some [Live 10, Live 20, Live 30, Raw, Raw]],
              \<lparr>m_data = Some 1, m_size = 3, m_capacity = 5\<rparr>)"
    by (simp add: evals)
  have s: "0 < sizeof_T avr_int" "0 < sizeof_T avr_object"
    "(3 * length [10, 20, 30::int] + 1) * sizeof_T avr_int \<le> 2 * SIZE_MAX avr_int"
    "(3 * length [10, 20, 30::int] + 1) * sizeof_T avr_object \<le> 2 * SIZE_MAX avr_object"
    by (simp_all add: avr_int_def avr_object_def)
  have t: "trivially_destructible avr_int" "\<not> trivially_destructible avr_object"
    by (simp_all add: avr_int_def avr_object_def)
  from pushBack_round_trip [OF s(1,3), of "[]"] pushBack_round_trip [OF s(2,4), of "[]"] r t
  show ?thesis
    by (simp add: upt_rec)
qed

lemma pushBack_object_returns:
  assumes "vec_wf h v" "0 < sizeof_T p"
    "(m_capacity v + m_capacity v div 2 + 2) * sizeof_T p \<le> SIZE_MAX p"
    "m_size v < m_capacity v \<or> m_data v = None \<or> trivially_destructible p"
  shows "\<exists>h' v'. pushBack p h v (Object x) = Returns (h', v') \<and>
           pushBack_rvalue p h v (Object x) = Returns (h', v') \<and>
           m_size v' = m_size v + 1 \<and>
           Vector_index h' v' (m_size v) = Returns (Live x) \<and>
           map (Vector_index h' v') [0..<m_size v] = map (Vector_index h v) [0..<m_size v] \<and>
           (if m_size v = m_capacity v
            then m_capacity v' = m_capacity v + m_capacity v div 2 + 2 \<and>
                 m_data v' = Some (length h) \<and> length h' = length h + 1 \<and>
                 (case m_data v of None \<Rightarrow> True | Some a \<Rightarrow> h' ! a = None)
            else m_capacity v' = m_capacity v \<and> m_data v' = m_data v \<and>
                 length h' = length h)"
proof -
  let ?b = "block_of h v"
  let ?n = "m_size v"
  let ?c = "m_capacity v"
  have le: "?n \<le> ?c" using assms(1) by (simp add: vec_wf_def)
  have lb: "length ?b = ?c" using assms(1) by (rule length_block_of)
  have "?c \<le> ?c + ?c div 2 + 2" by simp
  also have "\<dots> \<le> SIZE_MAX p" by (rule fits_le [OF assms(2,3)])
  finally have cm: "?c \<le> SIZE_MAX p" .
  show ?thesis
  proof (cases "m_data v")
    case None
    have z: "?c = 0" "?n = 0" using vec_wf_null [OF assms(1) None] by simp_all
    have two: "2 * sizeof_T p \<le> SIZE_MAX p" using assms(3) z by simp
    let ?h' = "h @ [Some [Live x, Raw]]"
    let ?v' = "\<lparr>m_data = Some (length h), m_size = 1, m_capacity = 2\<rparr>"
    have p: "pushBack p h v (Object x) = Returns (?h', ?v')"
      by (rule pushBack_full_null [OF assms(1) None assms(2) two])
    have i: "Vector_index ?h' ?v' 0 = Returns (Live x)"
      using Vector_index_block [of ?v' "length h" ?h' "[Live x, Raw]" 0] by simp
    show ?thesis
      using p i z None by (simp add: pushBack_rvalue_eq)
  next
    case (Some a)
    have a: "a < length h" "h ! a = Some ?b"
      using assms(1) Some by (auto simp: vec_wf_def block_of_def split: option.splits)
    have old: "Vector_index h v i = Returns (?b ! i)" if "i < ?n" for i
      using Vector_index_block [OF Some a, of i] that le lb by simp
    show ?thesis
    proof (cases "?n < ?c")
      case True
      let ?b' = "?b[?n := Live x]"
      let ?h' = "h[a := Some ?b']"
      let ?v' = "v\<lparr>m_size := ?n + 1\<rparr>"
      have "?n + 1 \<le> SIZE_MAX p" using True cm by simp
      then have sz: "size_t p (?n + 1) = ?n + 1" by (rule size_t_id)
      have p: "pushBack p h v (Object x) = Returns (?h', ?v')"
        using pushBack_room [OF assms(1) True Some, of "Object x" "Live x" p] sz by simp
      have new: "Vector_index ?h' ?v' i = Returns (?b' ! i)" if "i < ?c" for i
        by (rule Vector_index_block [where a = a]) (use Some a lb that in simp_all)
      have last: "Vector_index ?h' ?v' ?n = Returns (Live x)"
        using new [OF True] True lb by simp
      have same: "map (Vector_index ?h' ?v') [0..<?n] = map (Vector_index h v) [0..<?n]"
        by (rule nth_equalityI) (use new old True in simp_all)
      show ?thesis
        using p last same True a(1) by (simp add: pushBack_rvalue_eq)
    next
      case False
      then have full: "?n = ?c" using le by simp
      have tr: "trivially_destructible p" using assms(4) False Some by simp
      let ?nb = "?b @ Live x # replicate (?c div 2 + 1) Raw"
      let ?h' = "(h @ [Some ?nb])[a := None]"
      let ?v' = "\<lparr>m_data = Some (length h), m_size = ?c + 1,
                  m_capacity = ?c + ?c div 2 + 2\<rparr>"
      have p: "pushBack p h v (Object x) = Returns (?h', ?v')"
        using pushBack_full_block [OF assms(1) full Some assms(2,3), of x] tr by simp
      have new: "Vector_index ?h' ?v' i = Returns (?nb ! i)" if "i < length ?nb" for i
        by (rule Vector_index_block [where a = "length h"])
           (use a(1) that in \<open>simp_all add: nth_list_update nth_append\<close>)
      have last: "Vector_index ?h' ?v' ?n = Returns (Live x)"
        using new [of ?n] full lb by (simp add: nth_append)
      have same: "map (Vector_index ?h' ?v') [0..<?n] = map (Vector_index h v) [0..<?n]"
      proof (rule nth_equalityI)
        show "length (map (Vector_index ?h' ?v') [0..<?n]) = length (map (Vector_index h v) [0..<?n])"
          by simp
      next
        fix i assume "i < length (map (Vector_index ?h' ?v') [0..<?n])"
        then have i: "i < ?n" by simp
        then have "Vector_index ?h' ?v' i = Returns (?b ! i)"
          using new [of i] full lb by (simp add: nth_append)
        then show "map (Vector_index ?h' ?v') [0..<?n] ! i = map (Vector_index h v) [0..<?n] ! i"
          using i old by simp
      qed
      have freed: "?h' ! a = None" using a(1) by (simp add: nth_list_update)
      show ?thesis
        using p last same full Some freed by (simp add: pushBack_rvalue_eq)
    qed
  qed
qed

lemma pushBack_own_slot:
  assumes "vec_wf h v" "0 < sizeof_T p"
    "(m_capacity v + m_capacity v div 2 + 2) * sizeof_T p \<le> SIZE_MAX p"
    "m_data v = Some a" "i < m_size v"
  shows "pushBack p h v (Slot a i) =
           (if m_size v < m_capacity v
            then Returns (h[a := Some ((block_of h v)[m_size v := block_of h v ! i])],
                          v\<lparr>m_size := m_size v + 1\<rparr>)
            else Undefined (if trivially_destructible p then FreedMemory else MismatchedDelete))"
proof (cases "m_size v < m_capacity v")
  case True
  let ?b = "block_of h v"
  have a: "a < length h" "h ! a = Some ?b" "length ?b = m_capacity v"
    using assms(1,4) by (auto simp: vec_wf_def block_of_def split: option.splits)
  have rd: "read_reference h (Slot a i) = Returns (?b ! i)"
    using slot_read_live [OF a(1,2), of i] assms(5) True a(3) by simp
  have "m_capacity v \<le> m_capacity v + m_capacity v div 2 + 2" by simp
  also have "\<dots> \<le> SIZE_MAX p" by (rule fits_le [OF assms(2,3)])
  finally have "m_size v + 1 \<le> SIZE_MAX p" using True by simp
  then have sz: "size_t p (m_size v + 1) = m_size v + 1" by (rule size_t_id)
  show ?thesis
    using pushBack_room [OF assms(1) True assms(4) rd, of p] sz True by simp
next
  case False
  then have full: "m_size v = m_capacity v" using assms(1) by (simp add: vec_wf_def)
  show ?thesis
    using pushBack_full_own_slot [OF assms(1) full assms(4,2,3), of i] False by simp
qed

text \<open>
  C2. \<^verbatim>\<open>pushBack\<close> (either overload) on a vector that satisfies the representation
  invariant, when the bytes of the grown capacity are within \<^verbatim>\<open>size_t\<close>.

  With a reference to an object outside the vector's storage the call returns, the size
  grows by one, the value is the new last element and the elements before it are
  unchanged: below the capacity in the same block, with nothing allocated; at the capacity
  after a new block was allocated and the old one freed, the capacity becoming
  \<open>capacity + capacity div 2 + 2\<close>. The exception is a full vector that has a block,
  of an element type with a destructor: the \<^verbatim>\<open>delete[]\<close> of the old block is
  undefined.

  With a reference to an element of the vector itself, \<^verbatim>\<open>v.pushBack(v[i])\<close>, the
  element is appended below the capacity; at the capacity the old block is freed before
  the reference is read, and the call is undefined for every element type.
\<close>

theorem pushBack_appends_and_grows:
  assumes "vec_wf h v" "0 < sizeof_T p"
    "(m_capacity v + m_capacity v div 2 + 2) * sizeof_T p \<le> SIZE_MAX p"
  shows "(if m_size v = m_capacity v \<and> m_data v \<noteq> None \<and> \<not> trivially_destructible p
          then pushBack p h v (Object x) = Undefined MismatchedDelete \<and>
               pushBack_rvalue p h v (Object x) = Undefined MismatchedDelete
          else (\<exists>h' v'. pushBack p h v (Object x) = Returns (h', v') \<and>
                  pushBack_rvalue p h v (Object x) = Returns (h', v') \<and>
                  m_size v' = m_size v + 1 \<and>
                  Vector_index h' v' (m_size v) = Returns (Live x) \<and>
                  map (Vector_index h' v') [0..<m_size v] = map (Vector_index h v) [0..<m_size v] \<and>
                  (if m_size v = m_capacity v
                   then m_capacity v' = m_capacity v + m_capacity v div 2 + 2 \<and>
                        m_data v' = Some (length h) \<and> length h' = length h + 1 \<and>
                        (case m_data v of None \<Rightarrow> True | Some a \<Rightarrow> h' ! a = None)
                   else m_capacity v' = m_capacity v \<and> m_data v' = m_data v \<and>
                        length h' = length h))) \<and>
         (case m_data v of
            None \<Rightarrow> True
          | Some a \<Rightarrow>
              (if i < m_size v
               then pushBack p h v (Slot a i) =
                      (if m_size v < m_capacity v
                       then Returns (h[a := Some ((block_of h v)[m_size v := block_of h v ! i])],
                                     v\<lparr>m_size := m_size v + 1\<rparr>)
                       else Undefined (if trivially_destructible p then FreedMemory
                                       else MismatchedDelete))
               else True))"
proof -
  have first: "pushBack p h v (Object x) = Undefined MismatchedDelete \<and>
               pushBack_rvalue p h v (Object x) = Undefined MismatchedDelete"
    if "m_size v = m_capacity v" "m_data v \<noteq> None" "\<not> trivially_destructible p"
  proof -
    from that(2) obtain a where a: "m_data v = Some a" by auto
    show ?thesis
      using pushBack_full_block [OF assms(1) that(1) a assms(2,3), of x] that(3)
      by (simp add: pushBack_rvalue_eq)
  qed
  have second: "\<exists>h' v'. pushBack p h v (Object x) = Returns (h', v') \<and>
                  pushBack_rvalue p h v (Object x) = Returns (h', v') \<and>
                  m_size v' = m_size v + 1 \<and>
                  Vector_index h' v' (m_size v) = Returns (Live x) \<and>
                  map (Vector_index h' v') [0..<m_size v] = map (Vector_index h v) [0..<m_size v] \<and>
                  (if m_size v = m_capacity v
                   then m_capacity v' = m_capacity v + m_capacity v div 2 + 2 \<and>
                        m_data v' = Some (length h) \<and> length h' = length h + 1 \<and>
                        (case m_data v of None \<Rightarrow> True | Some a \<Rightarrow> h' ! a = None)
                   else m_capacity v' = m_capacity v \<and> m_data v' = m_data v \<and>
                        length h' = length h)"
    if "\<not> (m_size v = m_capacity v \<and> m_data v \<noteq> None \<and> \<not> trivially_destructible p)"
  proof -
    have "m_size v \<le> m_capacity v" using assms(1) by (simp add: vec_wf_def)
    with that have "m_size v < m_capacity v \<or> m_data v = None \<or> trivially_destructible p"
      by auto
    then show ?thesis by (rule pushBack_object_returns [OF assms])
  qed
  have third: "pushBack p h v (Slot a i) =
                 (if m_size v < m_capacity v
                  then Returns (h[a := Some ((block_of h v)[m_size v := block_of h v ! i])],
                                v\<lparr>m_size := m_size v + 1\<rparr>)
                  else Undefined (if trivially_destructible p then FreedMemory
                                  else MismatchedDelete))"
    if "m_data v = Some a" "i < m_size v" for a
    by (rule pushBack_own_slot [OF assms that])
  show ?thesis
  proof (intro conjI)
    show "if m_size v = m_capacity v \<and> m_data v \<noteq> None \<and> \<not> trivially_destructible p
          then pushBack p h v (Object x) = Undefined MismatchedDelete \<and>
               pushBack_rvalue p h v (Object x) = Undefined MismatchedDelete
          else (\<exists>h' v'. pushBack p h v (Object x) = Returns (h', v') \<and>
                  pushBack_rvalue p h v (Object x) = Returns (h', v') \<and>
                  m_size v' = m_size v + 1 \<and>
                  Vector_index h' v' (m_size v) = Returns (Live x) \<and>
                  map (Vector_index h' v') [0..<m_size v] = map (Vector_index h v) [0..<m_size v] \<and>
                  (if m_size v = m_capacity v
                   then m_capacity v' = m_capacity v + m_capacity v div 2 + 2 \<and>
                        m_data v' = Some (length h) \<and> length h' = length h + 1 \<and>
                        (case m_data v of None \<Rightarrow> True | Some a \<Rightarrow> h' ! a = None)
                   else m_capacity v' = m_capacity v \<and> m_data v' = m_data v \<and>
                        length h' = length h))"
    proof (cases "m_size v = m_capacity v \<and> m_data v \<noteq> None \<and> \<not> trivially_destructible p")
      case True
      then have c: "m_size v = m_capacity v" "m_data v \<noteq> None" "\<not> trivially_destructible p"
        by simp_all
      show ?thesis unfolding if_P [OF True] by (rule first [OF c])
    next
      case False
      show ?thesis unfolding if_not_P [OF False] by (rule second [OF False])
    qed
  next
    show "case m_data v of
            None \<Rightarrow> True
          | Some a \<Rightarrow>
              (if i < m_size v
               then pushBack p h v (Slot a i) =
                      (if m_size v < m_capacity v
                       then Returns (h[a := Some ((block_of h v)[m_size v := block_of h v ! i])],
                                     v\<lparr>m_size := m_size v + 1\<rparr>)
                       else Undefined (if trivially_destructible p then FreedMemory
                                       else MismatchedDelete))
               else True)"
    proof (cases "m_data v")
      case None
      then show ?thesis by simp
    next
      case (Some a)
      show ?thesis
      proof (cases "i < m_size v")
        case True
        from third [OF Some True] show ?thesis
          unfolding Some option.case using True by (simp only: if_True)
      next
        case False
        then show ?thesis unfolding Some option.case by (simp only: if_False)
      qed
    qed
  qed
qed

theorem pushBack_appends_and_grows_witness:
  "pushBack avr_int [Some [Live (1::int), Live 2]]
       \<lparr>m_data = Some 0, m_size = 2, m_capacity = 2\<rparr> (Object 3) =
     Returns ([None, Some [Live 1, Live 2, Live 3, Raw, Raw]],
              \<lparr>m_data = Some 1, m_size = 3, m_capacity = 5\<rparr>) \<and>
   Vector_index [None, Some [Live (1::int), Live 2, Live 3, Raw, Raw]]
     \<lparr>m_data = Some 1, m_size = 3, m_capacity = 5\<rparr> 2 = Returns (Live 3) \<and>
   pushBack avr_int [Some [Live (1::int), Live 2]]
       \<lparr>m_data = Some 0, m_size = 2, m_capacity = 2\<rparr> (Slot 0 0) = Undefined FreedMemory \<and>
   pushBack avr_object [Some [Live (1::int), Live 2]]
       \<lparr>m_data = Some 0, m_size = 2, m_capacity = 2\<rparr> (Object 3) = Undefined MismatchedDelete"
proof -
  let ?h = "[Some [Live (1::int), Live 2]]"
  let ?v = "\<lparr>m_data = Some 0, m_size = 2, m_capacity = 2\<rparr>"
  have wf: "vec_wf ?h ?v" by (simp add: vec_wf_def)
  have s: "0 < sizeof_T avr_int" "0 < sizeof_T avr_object"
    "(m_capacity ?v + m_capacity ?v div 2 + 2) * sizeof_T avr_int \<le> SIZE_MAX avr_int"
    "(m_capacity ?v + m_capacity ?v div 2 + 2) * sizeof_T avr_object \<le> SIZE_MAX avr_object"
    by (simp_all add: avr_int_def avr_object_def)
  have t: "trivially_destructible avr_int" "\<not> trivially_destructible avr_object"
    by (simp_all add: avr_int_def avr_object_def)
  have p: "pushBack avr_int ?h ?v (Object 3) =
           Returns ([None, Some [Live 1, Live 2, Live 3, Raw, Raw]],
                    \<lparr>m_data = Some 1, m_size = 3, m_capacity = 5\<rparr>)"
    by (simp add: evals)
  from pushBack_appends_and_grows [OF wf s(1,3), of 3 0]
       pushBack_appends_and_grows [OF wf s(2,4), of 3 0] p t
  show ?thesis by simp
qed

text \<open>
  On an AVR, a full vector of 43690 \<^verbatim>\<open>char\<close>s: the grown capacity is
  \<open>65537 mod 65536 = 1\<close>, the reallocation takes the branch for a capacity below the
  size, and the value is written past the block of one slot.
\<close>

lemma pushBack_wraps_on_avr:
  assumes "length cs = 43690"
  shows "pushBack avr_char [Some (map Live cs)]
           \<lparr>m_data = Some 0, m_size = length cs, m_capacity = length cs\<rparr> (Object c) =
         Undefined OutsideBlock"
proof -
  let ?v = "\<lparr>m_data = Some 0, m_size = length cs, m_capacity = length cs\<rparr>"
  have wf: "vec_wf [Some (map Live cs)] ?v" by (simp add: vec_wf_def)
  have w: "1 = size_t avr_char (m_capacity ?v + m_capacity ?v div 2 + 2)"
    by (simp add: assms size_t_def avr_char_def)
  show ?thesis
    by (rule pushBack_growth_wraps [OF wf _ _ _ _ w])
       (simp_all add: assms avr_char_def)
qed

text \<open>
  C3. A sequence of \<^verbatim>\<open>pushBack\<close>, \<^verbatim>\<open>popBack\<close> and \<^verbatim>\<open>clear\<close> calls on a
  vector that started empty, when every call of it is handled. Every call returns; after
  the last the size is at most the capacity, both are what \<open>track\<close> says, the size is
  the number of values held, and index \<open>i\<close> below the size yields the \<open>i\<close>-th value
  held: the values appended, in order of appending, less those removed from the end or
  cleared. A \<^verbatim>\<open>popBack\<close> that follows returns. A \<^verbatim>\<open>clear\<close> that follows
  returns unless the vector is full and not empty: then the slot it runs the destructor on
  lies outside the block. A \<^verbatim>\<open>v.pushBack(v[0])\<close> that follows on a full vector that
  is not empty, the bytes of the grown capacity being within \<^verbatim>\<open>size_t\<close>, is
  undefined: the old block is freed before the reference is read, by a \<^verbatim>\<open>delete[]\<close>
  that is itself undefined for an element type with a destructor.
\<close>

theorem interleaved_calls_invariant:
  assumes "0 < sizeof_T p" "handled p (0, 0) cs"
  shows "\<exists>h' v. run p cs (h, Vector_empty) = Returns (h', v) \<and>
           m_size v \<le> m_capacity v \<and>
           getSize v = length (held cs) \<and>
           map (Vector_index h' v) [0..<getSize v] = map (\<lambda>x. Returns (Live x)) (held cs) \<and>
           (m_size v, m_capacity v) = foldl track (0, 0) cs \<and>
           (\<exists>s. run p (cs @ [PopBack]) (h, Vector_empty) = Returns s) \<and>
           (if 0 < m_size v \<and> m_size v = m_capacity v
            then run p (cs @ [Clear]) (h, Vector_empty) = Undefined OutsideBlock
            else (\<exists>s. run p (cs @ [Clear]) (h, Vector_empty) = Returns s)) \<and>
           (if 0 < m_size v \<and> m_size v = m_capacity v \<and>
               (m_capacity v + m_capacity v div 2 + 2) * sizeof_T p \<le> SIZE_MAX p
            then run p (cs @ [PushBackElement 0]) (h, Vector_empty) =
                   Undefined (if trivially_destructible p then FreedMemory else MismatchedDelete)
            else True)"
proof -
  have hd: "handled p (m_size Vector_empty, m_capacity Vector_empty) cs"
    using assms(2) by (simp add: Vector_empty_def)
  from run_handled [OF assms(1) sound_empty hd, of h] obtain h' v where
    r: "run p cs (h, Vector_empty) = Returns (h', v)"
    and s: "sound p h' v (held cs)"
    and t: "(m_size v, m_capacity v) = foldl track (0, 0) cs"
    by (auto simp: held_def Vector_empty_def)
  from s have hl: "holds h' v (held cs)" by (simp add: sound_def)
  then have wf: "vec_wf h' v" by (simp add: holds_def)
  have a: "m_size v \<le> m_capacity v" "getSize v = length (held cs)"
    using hl by (simp_all add: holds_def vec_wf_def getSize_def)
  have ix: "map (Vector_index h' v) [0..<getSize v] = map (\<lambda>x. Returns (Live x)) (held cs)"
    using holds_indices [OF hl] a(2) by simp
  have pop: "\<exists>s. run p (cs @ [PopBack]) (h, Vector_empty) = Returns s"
    using popBack_holds [OF hl] by (auto simp: run_append r)
  have cl: "if 0 < m_size v \<and> m_size v = m_capacity v
            then run p (cs @ [Clear]) (h, Vector_empty) = Undefined OutsideBlock
            else (\<exists>s. run p (cs @ [Clear]) (h, Vector_empty) = Returns s)"
  proof (cases "0 < m_size v \<and> m_size v = m_capacity v")
    case True
    then have "0 < m_capacity v" by simp
    from vec_wf_block [OF wf this] obtain b where b: "m_data v = Some b" by blast
    have "clear h' v = Undefined OutsideBlock"
      using clear_result [OF wf b] True by simp
    then have "run p (cs @ [Clear]) (h, Vector_empty) = Undefined OutsideBlock"
      by (simp add: run_append r)
    then show ?thesis unfolding if_P [OF True] .
  next
    case False
    then have "m_size v = 0 \<or> m_size v < m_capacity v" using a(1) by auto
    from clear_holds [OF hl this] obtain s where "clear h' v = Returns s" by blast
    then have "run p (cs @ [Clear]) (h, Vector_empty) = Returns s"
      by (simp add: run_append r)
    then show ?thesis unfolding if_not_P [OF False] by blast
  qed
  have own: "if 0 < m_size v \<and> m_size v = m_capacity v \<and>
               (m_capacity v + m_capacity v div 2 + 2) * sizeof_T p \<le> SIZE_MAX p
            then run p (cs @ [PushBackElement 0]) (h, Vector_empty) =
                   Undefined (if trivially_destructible p then FreedMemory else MismatchedDelete)
            else True"
  proof (cases "0 < m_size v \<and> m_size v = m_capacity v \<and>
               (m_capacity v + m_capacity v div 2 + 2) * sizeof_T p \<le> SIZE_MAX p")
    case True
    then have pos: "0 < m_size v" and full: "m_size v = m_capacity v"
      and grow: "(m_capacity v + m_capacity v div 2 + 2) * sizeof_T p \<le> SIZE_MAX p"
      by simp_all
    have "0 < m_capacity v" using pos full by simp
    from vec_wf_block [OF wf this] obtain b where b: "m_data v = Some b" by blast
    have "0 < length (held cs)" using pos a(2) by (simp add: getSize_def)
    from holds_index [OF hl this] have ix0: "Vector_index h' v 0 = Returns (Live (held cs ! 0))" .
    have "call_op p (h', v) (PushBackElement 0) =
          Undefined (if trivially_destructible p then FreedMemory else MismatchedDelete)"
      using pushBack_full_own_slot [OF wf full b assms(1) grow, of 0] ix0 b by simp
    then have "run p (cs @ [PushBackElement 0]) (h, Vector_empty) =
               Undefined (if trivially_destructible p then FreedMemory else MismatchedDelete)"
      by (simp add: run_append r)
    then show ?thesis unfolding if_P [OF True] .
  next
    case False
    show ?thesis unfolding if_not_P [OF False] ..
  qed
  show ?thesis using r a ix t pop cl own by blast
qed

theorem interleaved_calls_invariant_witness:
  "handled avr_int (0, 0) [PushBack (1::int), PushBack 2] \<and>
   run avr_int [PushBack (1::int), PushBack 2] ([], Vector_empty) =
     Returns ([Some [Live 1, Live 2]], \<lparr>m_data = Some 0, m_size = 2, m_capacity = 2\<rparr>) \<and>
   run avr_int ([PushBack (1::int), PushBack 2] @ [Clear]) ([], Vector_empty) =
     Undefined OutsideBlock \<and>
   run avr_int ([PushBack (1::int), PushBack 2] @ [PushBackElement 0]) ([], Vector_empty) =
     Undefined FreedMemory \<and>
   handled avr_int (0, 0)
     [PushBack (1::int), PushBack 2, PushBack 3, PopBack, PushBackElement 0, Clear, PushBack 4] \<and>
   held [PushBack (1::int), PushBack 2, PushBack 3, PopBack, PushBackElement 0, Clear, PushBack 4]
     = [4] \<and>
   run avr_int
     [PushBack (1::int), PushBack 2, PushBack 3, PopBack, PushBackElement 0, Clear, PushBack 4]
     ([], Vector_empty) =
     Returns ([None, Some [Live 4, Live 2, Live 1, Destroyed, Raw]],
              \<lparr>m_data = Some 1, m_size = 1, m_capacity = 5\<rparr>) \<and>
   Vector_index [None, Some [Live 4, Live 2, Live 1, Destroyed, Raw]]
     \<lparr>m_data = Some 1, m_size = 1, m_capacity = 5\<rparr> 0 = Returns (Live (4::int))"
proof -
  let ?cs = "[PushBack (1::int), PushBack 2]"
  let ?ds = "[PushBack (1::int), PushBack 2, PushBack 3, PopBack, PushBackElement 0, Clear,
              PushBack 4]"
  have sz: "0 < sizeof_T avr_int" by (simp add: avr_int_def)
  have hc: "handled avr_int (0, 0) ?cs" by (simp add: avr_int_def)
  have hd: "handled avr_int (0, 0) ?ds" by (simp add: avr_int_def)
  have rc: "run avr_int ?cs ([], Vector_empty) =
            Returns ([Some [Live 1, Live 2]], \<lparr>m_data = Some 0, m_size = 2, m_capacity = 2\<rparr>)"
    by (simp add: evals)
  have rd: "run avr_int ?ds ([], Vector_empty) =
            Returns ([None, Some [Live 4, Live 2, Live 1, Destroyed, Raw]],
                     \<lparr>m_data = Some 1, m_size = 1, m_capacity = 5\<rparr>)"
    by (simp add: evals)
  have he: "held ?ds = [4]" by (simp add: held_def)
  from interleaved_calls_invariant [OF sz hc, of "[]"] obtain h' v where
    c: "run avr_int ?cs ([], Vector_empty) = Returns (h', v)"
       "if 0 < m_size v \<and> m_size v = m_capacity v
        then run avr_int (?cs @ [Clear]) ([], Vector_empty) = Undefined OutsideBlock
        else (\<exists>s. run avr_int (?cs @ [Clear]) ([], Vector_empty) = Returns s)"
       "if 0 < m_size v \<and> m_size v = m_capacity v \<and>
           (m_capacity v + m_capacity v div 2 + 2) * sizeof_T avr_int \<le> SIZE_MAX avr_int
        then run avr_int (?cs @ [PushBackElement 0]) ([], Vector_empty) =
               Undefined (if trivially_destructible avr_int then FreedMemory
                          else MismatchedDelete)
        else True"
    by blast
  from c(1) rc have v: "v = \<lparr>m_data = Some 0, m_size = 2, m_capacity = 2\<rparr>" by simp
  have cl: "run avr_int (?cs @ [Clear]) ([], Vector_empty) = Undefined OutsideBlock"
    using c(2) unfolding v by simp
  have ow: "run avr_int (?cs @ [PushBackElement 0]) ([], Vector_empty) = Undefined FreedMemory"
    using c(3) unfolding v by (simp add: avr_int_def)
  from interleaved_calls_invariant [OF sz hd, of "[]"] obtain h'' w where
    d: "run avr_int ?ds ([], Vector_empty) = Returns (h'', w)"
       "map (Vector_index h'' w) [0..<getSize w] = map (\<lambda>x. Returns (Live x)) (held ?ds)"
    by blast
  from d(1) rd have w: "h'' = [None, Some [Live 4, Live 2, Live 1, Destroyed, Raw]]"
    "w = \<lparr>m_data = Some 1, m_size = 1, m_capacity = 5\<rparr>" by simp_all
  have ix: "Vector_index [None, Some [Live 4, Live 2, Live 1, Destroyed, Raw]]
              \<lparr>m_data = Some 1, m_size = 1, m_capacity = 5\<rparr> 0 = Returns (Live (4::int))"
    using d(2) unfolding w he by (simp add: getSize_def)
  from hc hd rc rd he cl ow ix show ?thesis by (simp only: simp_thms)
qed

text \<open>
  C6. What \<^verbatim>\<open>clear\<close> does on a non-empty vector. Its loop runs the destructor
  \<open>m_size\<close> times on the one slot at index \<open>m_size\<close>. When the size is below the
  capacity the call returns: that slot, which held no element, is marked destroyed, the
  slots below the size, which hold the elements, are as they were, the size is 0, the
  capacity and the block are retained and a \<^verbatim>\<open>pushBack\<close> that follows returns. When the
  vector is full the slot lies outside the block and the behaviour is undefined. In
  neither case is an element destroyed.
\<close>

theorem clear_destroys_wrong_slot:
  assumes "vec_wf h v" "m_data v = Some a" "0 < m_size v"
  shows "if m_size v < m_capacity v
         then clear h v =
                Returns (h[a := Some ((block_of h v)[m_size v := Destroyed])], v\<lparr>m_size := 0\<rparr>) \<and>
              take (m_size v) ((block_of h v)[m_size v := Destroyed])
                = take (m_size v) (block_of h v) \<and>
              getSize (v\<lparr>m_size := 0\<rparr>) = 0 \<and> isEmpty (v\<lparr>m_size := 0\<rparr>) \<and>
              (\<exists>s. pushBack p (h[a := Some ((block_of h v)[m_size v := Destroyed])])
                     (v\<lparr>m_size := 0\<rparr>) (Object x) = Returns s)
         else clear h v = Undefined OutsideBlock"
proof (cases "m_size v < m_capacity v")
  case False
  then show ?thesis using clear_result [OF assms(1,2)] assms(3) by simp
next
  case True
  let ?b = "block_of h v"
  let ?h' = "h[a := Some (?b[m_size v := Destroyed])]"
  let ?v' = "v\<lparr>m_size := 0\<rparr>"
  have a: "a < length h" "length ?b = m_capacity v"
    using assms(1,2) by (auto simp: vec_wf_def block_of_def split: option.splits)
  have c: "clear h v = Returns (?h', ?v')"
    using clear_result [OF assms(1,2)] assms(3) True by simp
  have hl: "holds ?h' ?v' []"
    by (rule holdsI [where a = a and b = "?b[m_size v := Destroyed]"])
       (use a assms(2) in simp_all)
  then have wf': "vec_wf ?h' ?v'" by (simp add: holds_def)
  have room: "m_size ?v' < m_capacity ?v'" using True by simp
  have "\<exists>s. pushBack p ?h' ?v' (Object x) = Returns s"
    using pushBack_room [OF wf' room, of a "Object x" "Live x" p] assms(2) by simp
  then show ?thesis
    using True c by (simp add: getSize_def isEmpty_def)
qed

theorem clear_destroys_wrong_slot_witness:
  "run avr_int [PushBack (7::int), Clear] ([], Vector_empty) =
     Returns ([Some [Live 7, Destroyed]], \<lparr>m_data = Some 0, m_size = 0, m_capacity = 2\<rparr>) \<and>
   run avr_int [PushBack (7::int), PushBack 8, Clear] ([], Vector_empty) = Undefined OutsideBlock"
proof -
  let ?h1 = "[Some [Live (7::int), Raw]]"
  let ?v1 = "\<lparr>m_data = Some 0, m_size = 1, m_capacity = 2\<rparr>"
  let ?h2 = "[Some [Live (7::int), Live 8]]"
  let ?v2 = "\<lparr>m_data = Some 0, m_size = 2, m_capacity = 2\<rparr>"
  have p1: "pushBack avr_int [] Vector_empty (Object (7::int)) = Returns (?h1, ?v1)"
    by (simp add: evals)
  have p2: "pushBack avr_int ?h1 ?v1 (Object 8) = Returns (?h2, ?v2)"
    by (simp add: evals)
  have wf: "vec_wf ?h1 ?v1" "vec_wf ?h2 ?v2" by (simp_all add: vec_wf_def)
  have c1: "clear ?h1 ?v1 = Returns ([Some [Live 7, Destroyed]],
                                     \<lparr>m_data = Some 0, m_size = 0, m_capacity = 2\<rparr>)"
    using clear_destroys_wrong_slot [OF wf(1), of 0 avr_int 0] by (auto simp: block_of_def)
  have c2: "clear ?h2 ?v2 = Undefined OutsideBlock"
    using clear_destroys_wrong_slot [OF wf(2), of 0 avr_int 0] by simp
  show ?thesis using p1 p2 c1 c2 by simp
qed




text \<open>
  C8, as amended. \<^verbatim>\<open>reAllocate\<close> of a vector of elements with a trivial destructor to
  a capacity below the size, whose bytes are within \<^verbatim>\<open>size_t\<close>: the call returns,
  the size and the capacity are the new capacity, the new block holds the first
  \<open>newCapacity\<close> slots of the old one and the old block is freed, the elements from index
  \<open>newCapacity\<close> on with it. No condition is signalled.
\<close>

theorem reAllocate_shrink_is_silent:
  assumes "vec_wf h v" "m_data v = Some a" "newCapacity < m_size v"
    "0 < sizeof_T p" "newCapacity * sizeof_T p \<le> SIZE_MAX p" "trivially_destructible p"
  shows "reAllocate p h v newCapacity =
           Returns ((h @ [Some (take newCapacity (block_of h v))])[a := None],
                    \<lparr>m_data = Some (length h), m_size = newCapacity,
                     m_capacity = newCapacity\<rparr>) \<and>
         \<not> signalled (reAllocate p h v newCapacity)"
proof -
  have a: "a < length h" "h ! a = Some (block_of h v)" "length (block_of h v) = m_capacity v"
    using assms(1,2) by (auto simp: vec_wf_def block_of_def split: option.splits)
  have le: "m_size v \<le> length (block_of h v)" using assms(1) a(3) by (simp add: vec_wf_def)
  have ns: "newCapacity = size_t p (newCapacity * sizeof_T p) div sizeof_T p"
    using slots_fit [OF assms(4,5)] by simp
  have "reAllocate p h v newCapacity =
         (if trivially_destructible p
          then Returns ((h @ [Some (take newCapacity (block_of h v)
                                    @ replicate (newCapacity - newCapacity) Raw)])[a := None],
                        \<lparr>m_data = Some (length h), m_size = newCapacity,
                         m_capacity = newCapacity\<rparr>)
          else Undefined MismatchedDelete)"
    by (rule reAllocate_block [OF assms(2) a(1,2) le ns])
       (use assms(3) in \<open>simp_all add: min_def\<close>)
  then have r: "reAllocate p h v newCapacity =
           Returns ((h @ [Some (take newCapacity (block_of h v))])[a := None],
                    \<lparr>m_data = Some (length h), m_size = newCapacity,
                     m_capacity = newCapacity\<rparr>)"
    using assms(6) by simp
  show ?thesis unfolding r by simp
qed

theorem reAllocate_shrink_is_silent_witness:
  "vec_wf [Some [Live (1::int), Live 2, Live 3]] \<lparr>m_data = Some 0, m_size = 3, m_capacity = 3\<rparr> \<and>
   (1::nat) < m_size \<lparr>m_data = Some 0, m_size = 3, m_capacity = 3\<rparr> \<and>
   reAllocate avr_int [Some [Live (1::int), Live 2, Live 3]]
     \<lparr>m_data = Some 0, m_size = 3, m_capacity = 3\<rparr> 1 =
     Returns ([None, Some [Live 1]], \<lparr>m_data = Some 1, m_size = 1, m_capacity = 1\<rparr>)"
proof -
  let ?h = "[Some [Live (1::int), Live 2, Live 3]]"
  let ?v = "\<lparr>m_data = Some 0, m_size = 3, m_capacity = 3\<rparr>"
  have wf: "vec_wf ?h ?v" by (simp add: vec_wf_def)
  have d: "m_data ?v = Some 0" by simp
  have lt: "1 < m_size ?v" by simp
  have s: "0 < sizeof_T avr_int" "1 * sizeof_T avr_int \<le> SIZE_MAX avr_int"
    "trivially_destructible avr_int"
    by (simp_all add: avr_int_def)
  from reAllocate_shrink_is_silent [OF wf d lt s] wf show ?thesis
    by (simp add: block_of_def)
qed

text \<open>
  C8 as stated fails: shrinking the vector of the values 1 and 2 to capacity 1 returns
  the vector of the value 1 and signals nothing.
\<close>

theorem reAllocate_shrink_counterexample:
  "reAllocate avr_int [Some [Live (1::int), Live 2]]
     \<lparr>m_data = Some 0, m_size = 2, m_capacity = 2\<rparr> 1
     = Returns ([None, Some [Live 1]], \<lparr>m_data = Some 1, m_size = 1, m_capacity = 1\<rparr>) \<and>
   \<not> signalled (reAllocate avr_int [Some [Live (1::int), Live 2]]
                  \<lparr>m_data = Some 0, m_size = 2, m_capacity = 2\<rparr> 1)"
proof -
  have "reAllocate avr_int [Some [Live (1::int), Live 2]]
          \<lparr>m_data = Some 0, m_size = 2, m_capacity = 2\<rparr> 1
     = Returns ([None, Some [Live 1]], \<lparr>m_data = Some 1, m_size = 1, m_capacity = 1\<rparr>)"
    by (simp add: evals)
  then show ?thesis by simp
qed

section \<open>The claims on the function wrapper\<close>

lemma Callable_copy_eq: "Callable_copy h c = (length h, h @ [Some c])"
  by (cases c) (simp_all add: operator_new_def)

lemma Function_copy_target:
  assumes "target h f = Returns c"
  shows "Function_copy h f = Returns (h @ [Some c], \<lparr>m_callable = Some (length h)\<rparr>)"
  using assms by (simp add: Function_copy_def target_def Callable_copy_eq)

lemma Function_call_target:
  "target h f = Returns c \<Longrightarrow> Function_call h os f args = Callable_call c os args"
  by (simp add: Function_call_def target_def)

lemma copy_chain_targets:
  assumes "target h f = Returns c"
  shows "\<exists>h' gs xs. copy_chain n h f = Returns (h', gs) \<and> length gs = n \<and> h' = h @ xs \<and>
           map (target h') (f # gs) = replicate (Suc n) (Returns c)"
  using assms
proof (induction n arbitrary: h f)
  case 0
  then show ?case by simp
next
  case (Suc n)
  let ?h1 = "h @ [Some c]"
  let ?g = "\<lparr>m_callable = Some (length h)\<rparr>"
  have cp: "Function_copy h f = Returns (?h1, ?g)" by (rule Function_copy_target [OF Suc.prems])
  have tg: "target ?h1 ?g = Returns c" by (simp add: target_def)
  from Suc.IH [OF tg] obtain h2 gs xs where
    ch: "copy_chain n ?h1 ?g = Returns (h2, gs)" "length gs = n" "h2 = ?h1 @ xs"
        "map (target h2) (?g # gs) = replicate (Suc n) (Returns c)" by blast
  have "target h2 f = Returns c"
    using Suc.prems ch(3) by (simp add: target_def deref_append)
  moreover have "h2 = h @ (Some c # xs)" using ch(3) by simp
  ultimately show ?case using cp ch(1,2,4) by simp
qed

text \<open>
  C4. Copying a wrapper \<open>f\<close> that owns a callable \<open>c\<close>, of either variant, returns a
  wrapper \<open>g\<close> that owns a new heap object, at an address that was not allocated before
  and differs from \<open>f\<close>'s, holding the same callable \<open>c\<close>. A call through \<open>g\<close> gives
  what the call through \<open>f\<close> gives, for every store of objects and every arguments.
  Destroying \<open>f\<close> frees \<open>f\<close>'s callable only and leaves calls through \<open>g\<close> as they
  were; destroying \<open>g\<close> leaves calls through \<open>f\<close> as they were.
\<close>

theorem copy_is_independent_duplicate:
  assumes "target h f = Returns c"
  shows "\<exists>h' g. Function_copy h f = Returns (h', g) \<and>
           m_callable g = Some (length h) \<and> length h' = length h + 1 \<and>
           m_callable g \<noteq> m_callable f \<and>
           target h' g = Returns c \<and> target h' f = Returns c \<and>
           Function_call h' os g args = Function_call h os f args \<and>
           Function_call h' os f args = Function_call h os f args \<and>
           (\<exists>hf. Function_destroy h' f = Returns hf \<and> target hf f = Undefined FreedMemory \<and>
                 Function_call hf os g args = Function_call h os f args) \<and>
           (\<exists>hg. Function_destroy h' g = Returns hg \<and> target hg g = Undefined FreedMemory \<and>
                 Function_call hg os f args = Function_call h os f args)"
proof -
  from assms obtain a where a: "m_callable f = Some a" "a < length h" "h ! a = Some c"
    by (auto simp: target_def deref_Returns_iff)
  let ?h' = "h @ [Some c]"
  let ?g = "\<lparr>m_callable = Some (length h)\<rparr>"
  have cp: "Function_copy h f = Returns (?h', ?g)" by (rule Function_copy_target [OF assms])
  have tg: "target ?h' ?g = Returns c" by (simp add: target_def)
  have tf: "target ?h' f = Returns c" using assms by (simp add: target_def deref_append)
  have df: "Function_destroy ?h' f = Returns (h[a := None] @ [Some c])"
    using a by (simp add: Function_destroy_def operator_delete_def nth_append list_update_append)
  have dg: "Function_destroy ?h' ?g = Returns (h @ [None])"
    by (simp add: Function_destroy_def operator_delete_def)
  have tgf: "target (h[a := None] @ [Some c]) ?g = Returns c"
    using deref_new [of "h[a := None]" c] by (simp add: target_def)
  have tfg: "target (h @ [None]) f = Returns c"
    using assms by (simp add: target_def deref_append)
  have gone_f: "target (h[a := None] @ [Some c]) f = Undefined FreedMemory"
    using a by (simp add: target_def deref_def nth_append)
  have gone_g: "target (h @ [None]) ?g = Undefined FreedMemory"
    by (simp add: target_def deref_def)
  have calls:
    "Function_call ?h' os ?g args = Function_call h os f args"
    "Function_call ?h' os f args = Function_call h os f args"
    "Function_call (h[a := None] @ [Some c]) os ?g args = Function_call h os f args"
    "Function_call (h @ [None]) os f args = Function_call h os f args"
    by (simp_all only: Function_call_target [OF tg] Function_call_target [OF tf]
        Function_call_target [OF tgf] Function_call_target [OF tfg]
        Function_call_target [OF assms])
  have ne: "m_callable ?g \<noteq> m_callable f" using a by simp
  show ?thesis
    using cp tg tf df dg gone_f gone_g calls ne by simp
qed

theorem copy_is_independent_duplicate_witness:
  "target [Some (FunctionCallable exampleFunction)] \<lparr>m_callable = Some 0\<rparr>
     = Returns (FunctionCallable exampleFunction :: (unit, real \<times> real, real) Callable) \<and>
   Function_copy [Some (FunctionCallable exampleFunction :: (unit, real \<times> real, real) Callable)]
       \<lparr>m_callable = Some 0\<rparr>
     = Returns ([Some (FunctionCallable exampleFunction), Some (FunctionCallable exampleFunction)],
                \<lparr>m_callable = Some 1\<rparr>) \<and>
   Function_destroy
       [Some (FunctionCallable exampleFunction :: (unit, real \<times> real, real) Callable),
        Some (FunctionCallable exampleFunction)] \<lparr>m_callable = Some 0\<rparr>
     = Returns [None, Some (FunctionCallable exampleFunction)] \<and>
   Function_call
       [None, Some (FunctionCallable exampleFunction :: (unit, real \<times> real, real) Callable)]
       Map.empty \<lparr>m_callable = Some 1\<rparr> (2, 5)
     = Returns (10, Map.empty)"
proof -
  let ?c = "FunctionCallable exampleFunction :: (unit, real \<times> real, real) Callable"
  let ?f = "\<lparr>m_callable = Some 0\<rparr>"
  have t: "target [Some ?c] ?f = Returns ?c" by (simp add: target_def deref_def)
  from copy_is_independent_duplicate [OF t, of Map.empty "(2, 5)"] obtain h' g hf where
    o: "Function_copy [Some ?c] ?f = Returns (h', g)"
       "Function_destroy h' ?f = Returns hf"
       "Function_call hf Map.empty g (2, 5) = Function_call [Some ?c] Map.empty ?f (2, 5)"
    by auto
  have cp: "Function_copy [Some ?c] ?f = Returns ([Some ?c, Some ?c], \<lparr>m_callable = Some 1\<rparr>)"
    by (simp add: Function_copy_def deref_def Callable_copy_eq)
  have hg: "h' = [Some ?c, Some ?c]" "g = \<lparr>m_callable = Some 1\<rparr>" using o(1) cp by simp_all
  have ds: "Function_destroy [Some ?c, Some ?c] ?f = Returns [None, Some ?c]"
    by (simp add: Function_destroy_def operator_delete_def)
  have hf: "hf = [None, Some ?c]" using o(2) ds unfolding hg by simp
  have "Function_call [Some ?c] Map.empty ?f (2, 5) = Returns (10, Map.empty)"
    by (simp add: Function_call_def deref_def exampleFunction_def)
  with o(3) have "Function_call [None, Some ?c] Map.empty \<lparr>m_callable = Some 1\<rparr> (2, 5)
                  = Returns (10, Map.empty)"
    unfolding hf hg by simp
  with t cp ds show ?thesis by simp
qed

text \<open>
  C5. A call through a wrapper is the call of the callable it owns, with the same
  arguments and the result unchanged. A wrapper made from a function pointer, by
  \<^verbatim>\<open>bind\<close> or by the constructor, returns what the function returns on the arguments
  and leaves the objects as they are. Bound to \<^verbatim>\<open>exampleFunction\<close>, which
  multiplies its two arguments, the call with \<open>(2, 5)\<close> returns \<open>10\<close>.
\<close>

theorem call_forwards_to_target:
  assumes "target h f = Returns c"
  shows "Function_call h os f args = Callable_call c os args \<and>
         (case Function_bind h functionPtr of
            (h1, g) \<Rightarrow> Function_call h1 os g args = Returns (functionPtr args, os)) \<and>
         (case Function_from_pointer h functionPtr of
            (h1, g) \<Rightarrow> Function_call h1 os g args = Returns (functionPtr args, os)) \<and>
         (case Function_bind h0 exampleFunction of
            (h1, g) \<Rightarrow> Function_call h1 os0 g (2, 5) = Returns (10, os0))"
proof -
  have bind: "Function_call (fst (Function_bind hh fp)) oo (snd (Function_bind hh fp)) aa
              = Returns (fp aa, oo)"
    for hh :: "('x, 'y, 'z) Callable heap" and fp oo aa
    by (simp add: Function_bind_def operator_new_def Function_call_def)
  have ctor: "Function_call (fst (Function_from_pointer h functionPtr)) os
                (snd (Function_from_pointer h functionPtr)) args
              = Returns (functionPtr args, os)"
    by (simp add: Function_from_pointer_def operator_new_def Function_call_def)
  have ex: "exampleFunction (2, 5) = 10" by (simp add: exampleFunction_def)
  show ?thesis
    using Function_call_target [OF assms, of os args] bind [of h functionPtr os args] ctor
      bind [of h0 exampleFunction os0 "(2, 5)"] ex
    by (simp add: split_beta)
qed

theorem call_forwards_to_target_witness:
  "target [Some (FunctionCallable exampleFunction :: (unit, real \<times> real, real) Callable)]
     \<lparr>m_callable = Some 0\<rparr> = Returns (FunctionCallable exampleFunction) \<and>
   Function_bind [] exampleFunction
     = ([Some (FunctionCallable exampleFunction :: (unit, real \<times> real, real) Callable)],
        \<lparr>m_callable = Some 0\<rparr>) \<and>
   Function_call [Some (FunctionCallable exampleFunction :: (unit, real \<times> real, real) Callable)]
     Map.empty \<lparr>m_callable = Some 0\<rparr> (2, 5) = Returns (10, Map.empty)"
proof -
  let ?c = "FunctionCallable exampleFunction :: (unit, real \<times> real, real) Callable"
  let ?f = "\<lparr>m_callable = Some 0\<rparr>"
  have t: "target [Some ?c] ?f = Returns ?c" by (simp add: target_def deref_def)
  have b: "Function_bind [] exampleFunction = ([Some ?c], ?f)"
    by (simp add: Function_bind_def operator_new_def)
  from call_forwards_to_target [OF t, where ?h0.0 = "[] :: (unit, real \<times> real, real) Callable heap"
         and ?os0.0 = Map.empty and os = Map.empty and args = "(2, 5)"
         and functionPtr = exampleFunction] t b
  show ?thesis by (simp add: exampleFunction_def)
qed

text \<open>
  C9. The assignment \<^verbatim>\<open>this = other\<close> of wrappers that own callables. Its statements
  delete the callable of \<^verbatim>\<open>this\<close> first. When \<^verbatim>\<open>other\<close> owns another callable,
  a copy of that is then allocated and \<^verbatim>\<open>this\<close> owns it. When \<^verbatim>\<open>other\<close> is
  \<^verbatim>\<open>this\<close> itself, the callable to be copied has just been deleted: the assignment
  reads freed memory, and the wrapper is not left valid. The operator then ends without
  returning the reference it is declared to return, so that no call of it is defined.
\<close>

theorem assignment_deletes_then_copies:
  assumes "m_callable this = Some a" "target h this = Returns c" "target h other = Returns d"
  shows "Function_assign_body h this other =
           (if m_callable other = Some a then Undefined FreedMemory
            else Returns (h[a := None] @ [Some d], \<lparr>m_callable = Some (length h)\<rparr>)) \<and>
         Function_assign h this other =
           Undefined (if m_callable other = Some a then FreedMemory else MissingReturn)"
proof -
  have a: "a < length h" "h ! a = Some c"
    using assms(1,2) by (auto simp: target_def deref_Returns_iff)
  from assms(3) obtain b where b: "m_callable other = Some b" "b < length h" "h ! b = Some d"
    by (auto simp: target_def deref_Returns_iff)
  have del: "operator_delete h (m_callable this) = Returns (h[a := None])"
    using a assms(1) by (simp add: operator_delete_def)
  have body: "Function_assign_body h this other =
           (if m_callable other = Some a then Undefined FreedMemory
            else Returns (h[a := None] @ [Some d], \<lparr>m_callable = Some (length h)\<rparr>))"
  proof (cases "b = a")
    case True
    then have "deref (h[a := None]) (m_callable other) = Undefined FreedMemory"
      using a(1) b(1) by (simp add: deref_def)
    then show ?thesis
      using True b(1) assms(1) del by (simp add: Function_assign_body_def)
  next
    case False
    then have "deref (h[a := None]) (m_callable other) = Returns d"
      using b by (simp add: deref_def)
    then show ?thesis
      using False b(1) assms(1) del by (simp add: Function_assign_body_def Callable_copy_eq)
  qed
  then show ?thesis by (simp add: Function_assign_def)
qed

theorem assignment_deletes_then_copies_witness:
  "Function_assign_body
     [Some (FunctionCallable exampleFunction :: (unit, real \<times> real, real) Callable)]
     \<lparr>m_callable = Some 0\<rparr> \<lparr>m_callable = Some 0\<rparr> = Undefined FreedMemory \<and>
   Function_assign
     [Some (FunctionCallable exampleFunction :: (unit, real \<times> real, real) Callable)]
     \<lparr>m_callable = Some 0\<rparr> \<lparr>m_callable = Some 0\<rparr> = Undefined FreedMemory"
proof -
  let ?c = "FunctionCallable exampleFunction :: (unit, real \<times> real, real) Callable"
  let ?f = "\<lparr>m_callable = Some 0\<rparr>"
  have t: "target [Some ?c] ?f = Returns ?c" by (simp add: target_def deref_def)
  have m: "m_callable ?f = Some 0" by simp
  from assignment_deletes_then_copies [OF m t t] show ?thesis by simp
qed

text \<open>
  C10. A wrapper bound to a method of the object at \<open>objectRef\<close>, and every wrapper of a
  chain of \<open>n\<close> copies made from it, owns a callable with that same reference and method
  pointer. A call through any of them runs the method on the state the store holds for
  \<open>objectRef\<close> at the time of the call and writes the new state back to \<open>objectRef\<close>:
  a change made through one wrapper is seen by the calls through all others.
\<close>

theorem copies_share_the_object:
  "\<exists>h1 f h2 gs.
     Function_bind_member h objectRef functionPtr = (h1, f) \<and>
     copy_chain n h1 f = Returns (h2, gs) \<and> length gs = n \<and>
     map (target h2) (f # gs) = replicate (Suc n) (Returns (MemberCallable objectRef functionPtr)) \<and>
     map (\<lambda>g. Function_call h2 os g args) (f # gs) =
       replicate (Suc n)
         (case os objectRef of
            None \<Rightarrow> Undefined DanglingReference
          | Some obj \<Rightarrow>
              Returns (fst (functionPtr obj args), os(objectRef \<mapsto> snd (functionPtr obj args))))"
proof -
  let ?c = "MemberCallable objectRef functionPtr"
  let ?h1 = "h @ [Some ?c]"
  let ?f = "\<lparr>m_callable = Some (length h)\<rparr>"
  have b: "Function_bind_member h objectRef functionPtr = (?h1, ?f)"
    by (simp add: Function_bind_member_def operator_new_def)
  have tf: "target ?h1 ?f = Returns ?c" by (simp add: target_def)
  from copy_chain_targets [OF tf, of n] obtain h2 gs where
    ch: "copy_chain n ?h1 ?f = Returns (h2, gs)" "length gs = n"
        "map (target h2) (?f # gs) = replicate (Suc n) (Returns ?c)" by blast
  have all: "target h2 g = Returns ?c" if "g \<in> set (?f # gs)" for g
  proof -
    have "target h2 g \<in> set (map (target h2) (?f # gs))"
      unfolding set_map using that by (rule imageI)
    then show ?thesis unfolding ch(3) by auto
  qed
  have call: "Function_call h2 os g args =
              (case os objectRef of
                 None \<Rightarrow> Undefined DanglingReference
               | Some obj \<Rightarrow>
                   Returns (fst (functionPtr obj args), os(objectRef \<mapsto> snd (functionPtr obj args))))"
    if "g \<in> set (?f # gs)" for g
    using Function_call_target [OF all [OF that], of os args]
    by (simp add: split_beta split: option.splits)
  have "map (\<lambda>g. Function_call h2 os g args) (?f # gs) =
        map (\<lambda>g. case os objectRef of
                 None \<Rightarrow> Undefined DanglingReference
               | Some obj \<Rightarrow>
                   Returns (fst (functionPtr obj args), os(objectRef \<mapsto> snd (functionPtr obj args))))
            (?f # gs)"
    by (rule map_cong [OF refl call])
  also have "\<dots> = replicate (Suc n)
         (case os objectRef of
            None \<Rightarrow> Undefined DanglingReference
          | Some obj \<Rightarrow>
              Returns (fst (functionPtr obj args), os(objectRef \<mapsto> snd (functionPtr obj args))))"
    using ch(2) by (simp add: map_replicate_const)
  finally show ?thesis using b ch by blast
qed

theorem copies_share_the_object_witness:
  "Function_bind_member [] 0 (\<lambda>m v. (m + v, m + (v::int))) =
     ([Some (MemberCallable 0 (\<lambda>m v. (m + v, m + v)))], \<lparr>m_callable = Some 0\<rparr>) \<and>
   copy_chain 2 [Some (MemberCallable 0 (\<lambda>m v. (m + v, m + (v::int))))] \<lparr>m_callable = Some 0\<rparr> =
     Returns ([Some (MemberCallable 0 (\<lambda>m v. (m + v, m + v))),
               Some (MemberCallable 0 (\<lambda>m v. (m + v, m + v))),
               Some (MemberCallable 0 (\<lambda>m v. (m + v, m + v)))],
              [\<lparr>m_callable = Some 1\<rparr>, \<lparr>m_callable = Some 2\<rparr>]) \<and>
   Function_call [Some (MemberCallable 0 (\<lambda>m v. (m + v, m + (v::int)))),
                  Some (MemberCallable 0 (\<lambda>m v. (m + v, m + v))),
                  Some (MemberCallable 0 (\<lambda>m v. (m + v, m + v)))]
     [0 \<mapsto> 3] \<lparr>m_callable = Some 0\<rparr> 4 = Returns (7, [0 \<mapsto> 7]) \<and>
   Function_call [Some (MemberCallable 0 (\<lambda>m v. (m + v, m + (v::int)))),
                  Some (MemberCallable 0 (\<lambda>m v. (m + v, m + v))),
                  Some (MemberCallable 0 (\<lambda>m v. (m + v, m + v)))]
     [0 \<mapsto> 7] \<lparr>m_callable = Some 2\<rparr> 1 = Returns (8, [0 \<mapsto> 8])"
proof -
  let ?m = "\<lambda>m v. (m + v, m + (v::int))"
  let ?c = "MemberCallable 0 ?m"
  have b: "Function_bind_member [] 0 ?m = ([Some ?c], \<lparr>m_callable = Some 0\<rparr>)"
    by (simp add: Function_bind_member_def operator_new_def)
  have ch: "copy_chain 2 [Some ?c] \<lparr>m_callable = Some 0\<rparr> =
            Returns ([Some ?c, Some ?c, Some ?c], [\<lparr>m_callable = Some 1\<rparr>, \<lparr>m_callable = Some 2\<rparr>])"
    by (simp add: numeral_2_eq_2 Function_copy_def deref_def Callable_copy_eq)
  let ?h2 = "[Some ?c, Some ?c, Some ?c]"
  let ?gs = "[\<lparr>m_callable = Some 1\<rparr>, \<lparr>m_callable = Some 2\<rparr>]"
  have first: "Function_call ?h2 [0 \<mapsto> 3] \<lparr>m_callable = Some 0\<rparr> 4 = Returns (7, [0 \<mapsto> 7])"
  proof -
    from copies_share_the_object [of "[]" 0 ?m 2 "[0 \<mapsto> 3]" 4] obtain h1 f h2 gs where
      o: "Function_bind_member [] 0 ?m = (h1, f)" "copy_chain 2 h1 f = Returns (h2, gs)"
      "map (\<lambda>g. Function_call h2 [0 \<mapsto> 3] g 4) (f # gs)
         = replicate (Suc 2) (Returns (7, [0 \<mapsto> 7]))"
      by auto
    have hf: "h1 = [Some ?c]" "f = \<lparr>m_callable = Some 0\<rparr>" using o(1) b by simp_all
    have cc: "h2 = ?h2" "gs = ?gs" using o(2) ch unfolding hf by simp_all
    show ?thesis using o(3) unfolding hf cc by (simp add: numeral_2_eq_2)
  qed
  have second: "Function_call ?h2 [0 \<mapsto> 7] \<lparr>m_callable = Some 2\<rparr> 1 = Returns (8, [0 \<mapsto> 8])"
  proof -
    from copies_share_the_object [of "[]" 0 ?m 2 "[0 \<mapsto> 7]" 1] obtain h1 f h2 gs where
      o: "Function_bind_member [] 0 ?m = (h1, f)" "copy_chain 2 h1 f = Returns (h2, gs)"
      "map (\<lambda>g. Function_call h2 [0 \<mapsto> 7] g 1) (f # gs)
         = replicate (Suc 2) (Returns (8, [0 \<mapsto> 8]))"
      by auto
    have hf: "h1 = [Some ?c]" "f = \<lparr>m_callable = Some 0\<rparr>" using o(1) b by simp_all
    have cc: "h2 = ?h2" "gs = ?gs" using o(2) ch unfolding hf by simp_all
    show ?thesis using o(3) unfolding hf cc by (simp add: numeral_2_eq_2)
  qed
  from b ch first second show ?thesis by simp
qed

end
